theory Spec2Isabelle
  imports Main
begin

section \<open>JavaScript values as the bridge and the server see them\<close>

text \<open>
  Every value the two programs handle comes out of \<^verbatim>\<open>JSON.parse\<close> (a request body, a
  localStorage entry, data.json) or is built from such values, so a value is
  \<^verbatim>\<open>undefined\<close> or a JSON value. An object is the list of its own properties in the order
  \<^verbatim>\<open>Object.keys\<close> enumerates them. Boundaries of the model:
  \<^item> strings are lists of code units below 256, numbers are integers;
  \<^item> property names that live on \<^verbatim>\<open>Object.prototype\<close> (\<^verbatim>\<open>__proto__\<close>, \<^verbatim>\<open>toString\<close>,
    \<^verbatim>\<open>valueOf\<close>, \<^verbatim>\<open>constructor\<close>, ...) are not used as keys, so a lookup sees own
    properties only and \<^verbatim>\<open>String\<close> of an object is \<^verbatim>\<open>[object Object]\<close>;
  \<^item> the value stored under a localStorage key parses to a plain object (the readers of
    the source turn a missing or unparsable entry into \<^verbatim>\<open>{}\<close>), and a write to
    localStorage succeeds.
\<close>

datatype jsval = JUndef | JNull | JBool bool | JNum int | JStr string
  | JArr "jsval list" | JObj "(string \<times> jsval) list"

type_synonym obj = "(string \<times> jsval) list"

fun truthy :: "jsval \<Rightarrow> bool" where
  "truthy JUndef = False"
| "truthy JNull = False"
| "truthy (JBool b) = b"
| "truthy (JNum n) = (n \<noteq> 0)"
| "truthy (JStr s) = (s \<noteq> [])"
| "truthy (JArr xs) = True"
| "truthy (JObj kvs) = True"

text \<open>\<^verbatim>\<open>a || b\<close> and \<^verbatim>\<open>a && b\<close>.\<close>

definition js_or :: "jsval \<Rightarrow> jsval \<Rightarrow> jsval" where
  "js_or a b = (if truthy a then a else b)"

definition js_and :: "jsval \<Rightarrow> jsval \<Rightarrow> jsval" where
  "js_and a b = (if truthy a then b else a)"

text \<open>The decimal digits of a number that is not negative.\<close>

function show_dec :: "int \<Rightarrow> string" where
  "show_dec n = (if n < 10 then [char_of (48 + n)]
                 else show_dec (n div 10) @ [char_of (48 + n mod 10)])"
  by pat_completeness auto
termination
  by (relation "measure nat") auto

declare show_dec.simps [simp del]

fun join_comma :: "string list \<Rightarrow> string" where
  "join_comma [] = []"
| "join_comma [s] = s"
| "join_comma (s # t # ss) = s @ CHR '','' # join_comma (t # ss)"

text \<open>\<^verbatim>\<open>String(v)\<close>; an array is joined with commas, null and undefined elements empty.\<close>

fun js_String :: "jsval \<Rightarrow> string" where
  "js_String JUndef = ''undefined''"
| "js_String JNull = ''null''"
| "js_String (JBool b) = (if b then ''true'' else ''false'')"
| "js_String (JNum n) = (if n < 0 then CHR ''-'' # show_dec (- n) else show_dec n)"
| "js_String (JStr s) = s"
| "js_String (JArr xs) =
     join_comma (map (\<lambda>x. if x = JUndef \<or> x = JNull then [] else js_String x) xs)"
| "js_String (JObj kvs) = ''[object Object]''"

text \<open>\<^verbatim>\<open>s.trim()\<close>: tab, line feed, vertical tab, form feed, carriage return, space, no-break space.\<close>

definition is_ws :: "char \<Rightarrow> bool" where
  "is_ws c = (of_char c \<in> {9, 10, 11, 12, 13, 32, 160 :: nat})"

definition js_trim :: "string \<Rightarrow> string" where
  "js_trim s = rev (dropWhile is_ws (rev (dropWhile is_ws s)))"

definition toLowerChar :: "char \<Rightarrow> char" where
  "toLowerChar c = (let n = of_char c :: nat in
     if (65 \<le> n \<and> n \<le> 90) \<or> (192 \<le> n \<and> n \<le> 222 \<and> n \<noteq> 215)
     then char_of (n + 32) else c)"

definition toLowerCase :: "string \<Rightarrow> string" where
  "toLowerCase s = map toLowerChar s"

fun starts_with :: "string \<Rightarrow> string \<Rightarrow> bool" where
  "starts_with s [] = True"
| "starts_with [] (c # cs) = False"
| "starts_with (x # xs) (c # cs) = (x = c \<and> starts_with xs cs)"

text \<open>\<^verbatim>\<open>s.includes(sub)\<close>.\<close>

fun js_includes :: "string \<Rightarrow> string \<Rightarrow> bool" where
  "js_includes [] sub = (sub = [])"
| "js_includes (x # xs) sub = (starts_with (x # xs) sub \<or> js_includes xs sub)"

subsection \<open>Objects: own properties in enumeration order\<close>

text \<open>
  \<^verbatim>\<open>Object.keys\<close> lists the array-index keys (canonical decimal strings below
  \<open>2^32 - 1\<close>) in ascending numeric order first, then the other keys in insertion order.
\<close>

definition is_digit :: "char \<Rightarrow> bool" where
  "is_digit c = (48 \<le> (of_char c :: nat) \<and> (of_char c :: nat) \<le> 57)"

definition index_val :: "string \<Rightarrow> int" where
  "index_val s = foldl (\<lambda>n c. 10 * n + (of_char c - 48)) 0 s"

definition is_index :: "string \<Rightarrow> bool" where
  "is_index s = (s \<noteq> [] \<and> list_all is_digit s \<and> (hd s = CHR ''0'' \<longrightarrow> length s = 1)
     \<and> length s \<le> 10 \<and> index_val s < 4294967295)"

definition key_before :: "string \<Rightarrow> string \<Rightarrow> bool" where
  "key_before k k' = (is_index k \<and> (is_index k' \<longrightarrow> index_val k < index_val k'))"

fun obj_insert :: "string \<Rightarrow> jsval \<Rightarrow> obj \<Rightarrow> obj" where
  "obj_insert k v [] = [(k, v)]"
| "obj_insert k v ((k', v') # kvs) =
     (if key_before k k' then (k, v) # (k', v') # kvs else (k', v') # obj_insert k v kvs)"

text \<open>
  \<^verbatim>\<open>o[k]\<close> on an object, and \<^verbatim>\<open>o[k] = v\<close>: an existing key keeps its place. Should
  a list name a key twice, the last entry is the one read, as in JSON text.
\<close>

fun obj_keys :: "obj \<Rightarrow> string set" where
  "obj_keys [] = {}"
| "obj_keys ((k, v) # kvs) = insert k (obj_keys kvs)"

fun obj_get :: "obj \<Rightarrow> string \<Rightarrow> jsval" where
  "obj_get [] k = JUndef"
| "obj_get ((k', v) # kvs) k =
     (if k' = k \<and> k \<notin> obj_keys kvs then v else obj_get kvs k)"

fun obj_update :: "string \<Rightarrow> jsval \<Rightarrow> obj \<Rightarrow> obj" where
  "obj_update k v [] = []"
| "obj_update k v ((k', v') # kvs) =
     (if k' = k then (k', v) else (k', v')) # obj_update k v kvs"

definition obj_set :: "obj \<Rightarrow> string \<Rightarrow> jsval \<Rightarrow> obj" where
  "obj_set kvs k v = (if k \<in> obj_keys kvs then obj_update k v kvs else obj_insert k v kvs)"

text \<open>
  \<^verbatim>\<open>v.k\<close> for a value that is not null or undefined: only an object has the named
  properties the programs read (\<^verbatim>\<open>id\<close>, \<^verbatim>\<open>status\<close>, \<^verbatim>\<open>createdAt\<close>, ...). The callers
  below say what happens on null and undefined.
\<close>

fun js_get :: "jsval \<Rightarrow> string \<Rightarrow> jsval" where
  "js_get (JObj kvs) k = obj_get kvs k"
| "js_get v k = JUndef"

text \<open>
  The own enumerable properties \<^verbatim>\<open>Object.assign\<close> and the spread copy from a source:
  an array and a string contribute their index properties, other primitives nothing.
\<close>

fun own_props :: "jsval \<Rightarrow> obj" where
  "own_props (JObj kvs) = kvs"
| "own_props (JArr xs) = zip (map (\<lambda>i. show_dec (int i)) [0 ..< length xs]) xs"
| "own_props (JStr s) = zip (map (\<lambda>i. show_dec (int i)) [0 ..< length s]) (map (\<lambda>c. JStr [c]) s)"
| "own_props v = []"

definition obj_assign :: "obj \<Rightarrow> obj \<Rightarrow> obj" where
  "obj_assign target src = foldl (\<lambda>acc (k, v). obj_set acc k v) target src"

section \<open>The bridge (public/etg-realtime.js)\<close>

subsection \<open>statusBucket\<close>

text \<open>\<^verbatim>\<open>const s = String(status || '').toLowerCase()\<close>\<close>

definition lowered :: "jsval \<Rightarrow> string" where
  "lowered status = toLowerCase (js_String (js_or status (JStr [])))"

definition statusBucket :: "jsval \<Rightarrow> string" where
  "statusBucket status =
     (let s = lowered status
      in if js_includes s ''completed'' \<or> js_includes s ''final'' then ''completed''
         else if js_includes s ''approved'' then ''approved''
         else if js_includes s ''rejected'' then ''rejected''
         else if js_includes s ''policy'' then ''policy_violation''
         else if js_includes s ''manager'' then ''pending_manager''
         else ''pending'')"

subsection \<open>normalizeTrip of the bridge\<close>

text \<open>
  \<open>now1\<close> and \<open>now2\<close> are what the two \<^verbatim>\<open>new Date().toISOString()\<close> of the function
  return when they are evaluated (each only when the record's own field is falsy).
  \<open>None\<close> is the \<^verbatim>\<open>null\<close> the function returns.
\<close>

definition normalizeTrip_client :: "string \<Rightarrow> string \<Rightarrow> jsval \<Rightarrow> jsval option" where
  "normalizeTrip_client now1 now2 t =
     (if \<not> truthy t then None
      else let id = js_trim (js_String
                 (js_or (js_or (js_or (js_get t ''id'') (js_get t ''reqId''))
                    (js_get t ''requestId'')) (JStr [])))
        in if id = [] then None
           else let createdAt = js_or (js_get t ''createdAt'') (JStr now1)
             in Some (JObj (obj_assign (obj_assign [] (own_props t))
                  [(''id'', JStr id), (''createdAt'', createdAt),
                   (''updatedAt'', js_or (js_get t ''updatedAt'') (JStr now2))])))"

subsection \<open>The local mirror\<close>

text \<open>
  The state of a page: the two localStorage entries the bridge mirrors into, as parsed
  (\<^verbatim>\<open>readGlobalMap\<close>, \<^verbatim>\<open>readDeskStore\<close>), \<^verbatim>\<open>SUPPRESS_FLAG.on\<close>, and the timers: the
  deadline of the push timer while it is pending, and the number of zero-delay callbacks
  queued to lower the flag. \<open>pushes_started\<close> counts the runs of
  \<^verbatim>\<open>pushAllTripsToServer\<close>, \<open>posted\<close> lists the bodies it sent to
  \<^verbatim>\<open>POST /api/trips/bulk\<close>; neither exists in the source, they record what it did.
\<close>

record client_state =
  global_map :: obj
  desk_store :: obj
  suppress_on :: bool
  pushTimer :: "nat option"
  lower_queued :: nat
  pushes_started :: nat
  posted :: "jsval list"

datatype js_error = TypeError

definition buckets :: "string list" where
  "buckets = [''pending'', ''pending_manager'', ''approved'', ''rejected'',
              ''policy_violation'', ''completed'']"

fun is_array :: "jsval \<Rightarrow> bool" where
  "is_array (JArr xs) = True"
| "is_array v = False"

fun arr_items :: "jsval \<Rightarrow> jsval list" where
  "arr_items (JArr xs) = xs"
| "arr_items v = []"

text \<open>\<^verbatim>\<open>g[String(t.id)] = Object.assign({}, g[String(t.id)] || {}, t)\<close>\<close>

definition upsert_global :: "obj \<Rightarrow> jsval \<Rightarrow> obj" where
  "upsert_global g t =
     (let k = js_String (js_get t ''id'')
      in obj_set g k
           (JObj (obj_assign (obj_assign [] (own_props (js_or (obj_get g k) (JObj []))))
                    (own_props t))))"

text \<open>\<^verbatim>\<open>buckets.forEach((b) => { if (!Array.isArray(store[b])) store[b] = []; })\<close>\<close>

definition ensure_arrays :: "obj \<Rightarrow> obj" where
  "ensure_arrays store =
     foldl (\<lambda>st b. if is_array (obj_get st b) then st else obj_set st b (JArr [])) store buckets"

text \<open>\<^verbatim>\<open>buckets.forEach((b) => { store[b] = []; })\<close>\<close>

definition reset_buckets :: "obj \<Rightarrow> obj" where
  "reset_buckets store = foldl (\<lambda>st b. obj_set st b (JArr [])) store buckets"

text \<open>
  The loop over \<^verbatim>\<open>Object.keys(g)\<close> of the rebuild. \<^verbatim>\<open>tr.status\<close> raises a TypeError
  when the entry is null, and nothing catches it.
\<close>

fun rebuild_buckets :: "obj \<Rightarrow> string list \<Rightarrow> obj \<Rightarrow> js_error + obj" where
  "rebuild_buckets g [] store = Inr store"
| "rebuild_buckets g (k # ks) store =
     (let tr = obj_get g k
      in if tr = JNull \<or> tr = JUndef then Inl TypeError
         else let b = statusBucket (js_get tr ''status'')
           in rebuild_buckets g ks (obj_set store b (JArr (arr_items (obj_get store b) @ [tr]))))"

text \<open>\<^verbatim>\<open>String(x && x.id)\<close>, the id the merge compares an entry of a bucket by.\<close>

definition entry_id :: "jsval \<Rightarrow> string" where
  "entry_id x = js_String (js_and x (js_get x ''id''))"

text \<open>
  \<^verbatim>\<open>buckets.forEach((bb) => { store[bb] = (store[bb] || []).filter((x) => String(x && x.id) !== String(tr.id)); })\<close>
\<close>

definition remove_id :: "obj \<Rightarrow> string \<Rightarrow> obj" where
  "remove_id store i =
     foldl (\<lambda>st bb. obj_set st bb
              (JArr (filter (\<lambda>x. entry_id x \<noteq> i) (arr_items (js_or (obj_get st bb) (JArr []))))))
       store buckets"

text \<open>One round of the merge loop: remove the id everywhere, \<^verbatim>\<open>store[b].unshift(tr)\<close>.\<close>

definition merge_one :: "obj \<Rightarrow> jsval \<Rightarrow> obj" where
  "merge_one store tr =
     (let b = statusBucket (js_get tr ''status'');
          st = remove_id store (js_String (js_get tr ''id''))
      in obj_set st b (JArr (tr # arr_items (obj_get st b))))"

text \<open>
  \<^verbatim>\<open>(Array.isArray(trips) ? trips : []).map(normalizeTrip).filter(Boolean)\<close>: the
  normalizer reads the clock up to twice for the \<open>i\<close>-th element, \<open>clock (2 * i)\<close> and
  \<open>clock (2 * i + 1)\<close>.
\<close>

fun normalize_list :: "(nat \<Rightarrow> string) \<Rightarrow> nat \<Rightarrow> jsval list \<Rightarrow> jsval list" where
  "normalize_list clock i [] = []"
| "normalize_list clock i (t # ts) =
     (case normalizeTrip_client (clock (2 * i)) (clock (2 * i + 1)) t of
        None \<Rightarrow> normalize_list clock (Suc i) ts
      | Some r \<Rightarrow> r # normalize_list clock (Suc i) ts)"

text \<open>
  \<^verbatim>\<open>mirrorTripsToLocal(trips, { mergeOnly })\<close>. The result is the exception that leaves
  the function, if any, and the state it leaves behind. Both writes go through the
  patched \<^verbatim>\<open>localStorage.setItem\<close> with the flag raised, which schedules nothing.
\<close>

definition mirrorTripsToLocal ::
  "(nat \<Rightarrow> string) \<Rightarrow> jsval \<Rightarrow> bool \<Rightarrow> client_state \<Rightarrow> js_error option \<times> client_state" where
  "mirrorTripsToLocal clock trips mergeOnly s =
     (let list = normalize_list clock 0 (arr_items trips)
      in if list = [] then (None, s)
         else let g = foldl upsert_global (global_map s) list;
                  s1 = s\<lparr>suppress_on := True, global_map := g\<rparr>;
                  store = ensure_arrays (desk_store s1)
           in case (if \<not> mergeOnly then rebuild_buckets g (map fst g) (reset_buckets store)
                    else Inr (foldl merge_one store list)) of
                Inl e \<Rightarrow> (Some e, s1\<lparr>lower_queued := lower_queued s1 + 1\<rparr>)
              | Inr store' \<Rightarrow>
                  (None, s1\<lparr>desk_store := store', lower_queued := lower_queued s1 + 1\<rparr>))"

text \<open>
  Following the specification's words for the comparison with the rebuild: merge mode
  applied once per record, in the order given, the \<open>j\<close>-th call with its own clock
  \<open>clocks j\<close>.
\<close>

fun merge_each ::
  "(nat \<Rightarrow> nat \<Rightarrow> string) \<Rightarrow> nat \<Rightarrow> jsval list \<Rightarrow> client_state \<Rightarrow> client_state" where
  "merge_each clocks j [] s = s"
| "merge_each clocks j (r # rs) s =
     merge_each clocks (Suc j) rs (snd (mirrorTripsToLocal (clocks j) (JArr [r]) True s))"

text \<open>
  An entry of the canonical map as \<^verbatim>\<open>mirrorTripsToLocal\<close> itself leaves it: stored under
  its own id, which is trimmed and not empty, both timestamps set, and the properties in
  enumeration order without repetition (the object equals its copy
  \<^verbatim>\<open>Object.assign({}, r)\<close>).
\<close>

fun own_record :: "string \<Rightarrow> jsval \<Rightarrow> bool" where
  "own_record k (JObj kvs) =
     (obj_assign [] kvs = kvs \<and> obj_get kvs ''id'' = JStr k \<and> k \<noteq> [] \<and> js_trim k = k
      \<and> truthy (obj_get kvs ''createdAt'') \<and> truthy (obj_get kvs ''updatedAt''))"
| "own_record k v = False"

subsection \<open>The debounced push\<close>

text \<open>
  \<^verbatim>\<open>pushAllTripsToServer\<close> up to its \<^verbatim>\<open>await\<close>: the snapshot merged from the global map
  and from every array of the desk store, the refreshed global map, and the request, sent
  only when the snapshot is not empty.
\<close>

definition merge_from_global :: "obj \<Rightarrow> obj" where
  "merge_from_global g =
     foldl (\<lambda>m k. let t = obj_get g k
                   in if truthy (js_and t (js_get t ''id''))
                      then obj_set m (js_String (js_get t ''id'')) t else m) [] (map fst g)"

definition merge_from_array :: "obj \<Rightarrow> jsval list \<Rightarrow> obj" where
  "merge_from_array m v =
     foldl (\<lambda>m t. if truthy (js_and t (js_get t ''id''))
                   then let i = js_String (js_get t ''id'')
                        in obj_set m i
                             (JObj (obj_assign (obj_assign [] (own_props (js_or (obj_get m i) (JObj []))))
                                      (own_props t)))
                   else m) m v"

definition merge_from_desk :: "obj \<Rightarrow> obj \<Rightarrow> obj" where
  "merge_from_desk m desk =
     foldl (\<lambda>m k. let v = obj_get desk k
                   in if is_array v then merge_from_array m (arr_items v) else m) m (map fst desk)"

definition refresh_global :: "obj \<Rightarrow> obj \<Rightarrow> obj" where
  "refresh_global g mergedById =
     foldl (\<lambda>g i. obj_set g i
              (JObj (obj_assign (obj_assign [] (own_props (js_or (obj_get g i) (JObj []))))
                       (own_props (obj_get mergedById i))))) g (map fst mergedById)"

definition mergedById :: "client_state \<Rightarrow> obj" where
  "mergedById s = merge_from_desk (merge_from_global (global_map s)) (desk_store s)"

text \<open>\<^verbatim>\<open>trips\<close>, the snapshot to send.\<close>

definition push_snapshot :: "client_state \<Rightarrow> jsval list" where
  "push_snapshot s =
     filter truthy (map (\<lambda>k. obj_get (mergedById s) k) (map fst (mergedById s)))"

definition pushAllTripsToServer :: "client_state \<Rightarrow> client_state" where
  "pushAllTripsToServer s =
     (let s1 = s\<lparr>pushes_started := pushes_started s + 1, suppress_on := True,
                 global_map := refresh_global (global_map s) (mergedById s),
                 lower_queued := lower_queued s + 1\<rparr>;
          trips = push_snapshot s
      in if trips = [] then s1
         else s1\<lparr>posted := posted s1 @ [JObj [(''trips'', JArr trips)]]\<rparr>)"

text \<open>\<^verbatim>\<open>schedulePush\<close> at time \<open>now\<close> (milliseconds): the pending timer is replaced.\<close>

definition schedulePush :: "nat \<Rightarrow> client_state \<Rightarrow> client_state" where
  "schedulePush now s = (if suppress_on s then s else s\<lparr>pushTimer := Some (now + 400)\<rparr>)"

text \<open>
  The patched \<^verbatim>\<open>localStorage.setItem(key, value)\<close> called by a page at time \<open>now\<close>, the
  value given as it parses. The original \<^verbatim>\<open>setItem\<close> stores it, then the hook runs.
\<close>

definition mirror_key :: "string \<Rightarrow> bool" where
  "mirror_key k = (k = ''etg-trips-global'' \<or> k = ''etg-trips'' \<or> k = ''etg-trips-by-id'')"

definition setItem :: "nat \<Rightarrow> string \<Rightarrow> obj \<Rightarrow> client_state \<Rightarrow> client_state" where
  "setItem now key v s =
     (let s1 = (if key = ''etg-trips-global'' then s\<lparr>global_map := v\<rparr>
                else if key = ''etg-trips'' then s\<lparr>desk_store := v\<rparr> else s)
      in if \<not> suppress_on s1
         then (if mirror_key key then schedulePush now s1 else s1)
         else s1)"

text \<open>
  A turn of the event loop at time \<open>t\<close>, between two tasks of the page: the queued
  zero-delay callbacks lower the flag, and a push timer whose deadline has come runs
  \<^verbatim>\<open>pushAllTripsToServer\<close>, whose own zero-delay callback runs too.
\<close>

definition run_due :: "nat \<Rightarrow> client_state \<Rightarrow> client_state" where
  "run_due t s =
     (let s1 = (if lower_queued s > 0 then s\<lparr>suppress_on := False, lower_queued := 0\<rparr> else s)
      in case pushTimer s1 of
           None \<Rightarrow> s1
         | Some d \<Rightarrow>
             if d \<le> t
             then (pushAllTripsToServer (s1\<lparr>pushTimer := None\<rparr>))\<lparr>suppress_on := False, lower_queued := 0\<rparr>
             else s1)"

text \<open>
  A write of a page: the time of the call of \<^verbatim>\<open>localStorage.setItem\<close>, its key and value,
  and whether the event loop has had a turn since the callbacks pending at that time came
  due. A timer's callback runs only between tasks. So a write that starts a task of its
  own on an idle page finds the callbacks that are due already run, while a write that
  comes later in the task of the write before it, however long that task has taken, or in
  a task that the event loop runs ahead of the timer, finds them still pending; there
  \<^verbatim>\<open>schedulePush\<close> cancels the overdue timer with \<^verbatim>\<open>clearTimeout\<close> and sets a new one.
\<close>

datatype page_write =
  PageWrite (w_time: nat) (w_key: string) (w_value: obj) (w_loop_ran: bool)

text \<open>A page writing at the given times, with no socket event in between.\<close>

fun run_writes :: "page_write list \<Rightarrow> client_state \<Rightarrow> client_state" where
  "run_writes [] s = s"
| "run_writes (PageWrite t key v turn # ws) s =
     run_writes ws (setItem t key v (if turn then run_due t s else s))"

text \<open>
  The two patterns of writes the specification speaks of, on the times of the writes:
  each write within the quiet period of the one before, and each write beyond it.
\<close>

fun within_quiet :: "nat list \<Rightarrow> bool" where
  "within_quiet (t1 # t2 # ts) = (t1 \<le> t2 \<and> t2 < t1 + 400 \<and> within_quiet (t2 # ts))"
| "within_quiet ts = True"

fun beyond_quiet :: "nat list \<Rightarrow> bool" where
  "beyond_quiet (t1 # t2 # ts) = (t1 + 400 < t2 \<and> beyond_quiet (t2 # ts))"
| "beyond_quiet ts = True"

text \<open>The flag is down and no callback that lowers it is queued.\<close>

definition settled :: "client_state \<Rightarrow> bool" where
  "settled s = (\<not> suppress_on s \<and> lower_queued s = 0)"

section \<open>The server (server/server.js)\<close>

subsection \<open>normalizeTrip of the server\<close>

text \<open>
  \<open>trips\<close> is \<^verbatim>\<open>store.trips\<close>, \<open>now\<close> the clock reading of the call. \<^verbatim>\<open>t?.id\<close> is
  undefined on null and undefined, as \<open>js_get\<close> is.
\<close>

definition normalizeTrip_server :: "string \<Rightarrow> obj \<Rightarrow> jsval \<Rightarrow> jsval option" where
  "normalizeTrip_server now trips t =
     (let id = js_trim (js_String (js_or (js_get t ''id'') (JStr [])))
      in if id = [] then None
         else let prev = js_or (obj_get trips id) (JObj [])
           in Some (JObj (obj_assign []
                (own_props prev @ own_props t @
                 [(''id'', JStr id),
                  (''createdAt'',
                     js_or (js_or (js_get prev ''createdAt'') (js_get t ''createdAt'')) (JStr now)),
                  (''updatedAt'', JStr now)]))))"

subsection \<open>The handlers of the trip API\<close>

text \<open>
  The server's state is \<^verbatim>\<open>store\<close> (\<open>trips\<close>, \<open>users\<close>) and the contents of data.json.
  A handler returns what it did, in order, and the new state. Whether
  \<^verbatim>\<open>fs.writeFileSync\<close> succeeds is the environment's choice \<open>fs_ok\<close>; \<^verbatim>\<open>writeData\<close>
  catches its failure and logs it.
\<close>

record server_state =
  trips :: obj
  users :: obj
  disk :: jsval

datatype effect =
    DiskWrite jsval
  | LogWriteFailed
  | Emit string jsval
  | Respond nat jsval

definition store_json :: "server_state \<Rightarrow> jsval" where
  "store_json s = JObj [(''trips'', JObj (trips s)), (''users'', JObj (users s))]"

definition writeData :: "bool \<Rightarrow> server_state \<Rightarrow> effect list \<times> server_state" where
  "writeData fs_ok s =
     (if fs_ok then ([DiskWrite (store_json s)], s\<lparr>disk := store_json s\<rparr>)
      else ([LogWriteFailed], s))"

text \<open>\<^verbatim>\<open>app.post('/api/trips')\<close>; \<open>uuid\<close> is what \<^verbatim>\<open>crypto.randomUUID()\<close> returns.\<close>

definition post_trip ::
  "bool \<Rightarrow> string \<Rightarrow> string \<Rightarrow> jsval \<Rightarrow> server_state \<Rightarrow> effect list \<times> server_state" where
  "post_trip fs_ok now uuid body s =
     (let trip = js_or body (JObj []);
          i = js_trim (js_String (js_or (js_get trip ''id'') (JStr uuid)))
      in case normalizeTrip_server now (trips s)
                (JObj (obj_assign [] (own_props trip @ [(''id'', JStr i)]))) of
           None \<Rightarrow> ([Respond 400 (JObj [(''error'', JStr ''Trip id is required.'')])], s)
         | Some merged \<Rightarrow>
             let existed = truthy (obj_get (trips s) i);
                 s1 = s\<lparr>trips := obj_set (trips s) i merged\<rparr>;
                 w = writeData fs_ok s1
             in (fst w @ [Emit (if existed then ''trip:updated'' else ''trip:created'') merged,
                          Respond 200 merged], snd w))"

text \<open>\<^verbatim>\<open>app.patch('/api/trips/:id')\<close>; \<open>param\<close> is \<^verbatim>\<open>req.params.id\<close>.\<close>

definition patch_trip ::
  "bool \<Rightarrow> string \<Rightarrow> string \<Rightarrow> jsval \<Rightarrow> server_state \<Rightarrow> effect list \<times> server_state" where
  "patch_trip fs_ok now param body s =
     (let i = js_trim (js_String (js_or (JStr param) (JStr [])))
      in if i = [] then ([Respond 400 (JObj [(''error'', JStr ''Trip id is required.'')])], s)
         else let patch = js_or body (JObj [])
           in case normalizeTrip_server now (trips s)
                     (JObj (obj_assign [] (own_props patch @ [(''id'', JStr i)]))) of
                None \<Rightarrow> ([Respond 400 (JObj [(''error'', JStr ''Trip id is required.'')])], s)
              | Some merged \<Rightarrow>
                  let s1 = s\<lparr>trips := obj_set (trips s) i merged\<rparr>;
                      w = writeData fs_ok s1
                  in (fst w @ [Emit ''trip:updated'' merged, Respond 200 merged], snd w))"

text \<open>
  The loop of \<^verbatim>\<open>app.post('/api/trips/bulk')\<close> over \<^verbatim>\<open>store.trips\<close>, \<^verbatim>\<open>upserted\<close> and
  \<^verbatim>\<open>changed\<close>; \<open>clock n\<close> is the clock reading while the \<open>n\<close>-th entry is normalized.
\<close>

fun bulk_loop ::
  "(nat \<Rightarrow> string) \<Rightarrow> nat \<Rightarrow> jsval list \<Rightarrow> obj \<times> nat \<times> (bool \<times> jsval) list
     \<Rightarrow> obj \<times> nat \<times> (bool \<times> jsval) list" where
  "bulk_loop clock n [] acc = acc"
| "bulk_loop clock n (t # ts) (tr, upserted, changed) =
     (let i = js_trim (js_String (js_or (js_get t ''id'') (JStr [])))
      in if i = [] then bulk_loop clock (Suc n) ts (tr, upserted, changed)
         else let existed = truthy (obj_get tr i)
           in case normalizeTrip_server (clock n) tr t of
                None \<Rightarrow> bulk_loop clock (Suc n) ts (tr, upserted, changed)
              | Some merged \<Rightarrow>
                  bulk_loop clock (Suc n) ts
                    (obj_set tr i merged, upserted + 1, changed @ [(existed, merged)]))"

definition post_bulk ::
  "bool \<Rightarrow> (nat \<Rightarrow> string) \<Rightarrow> jsval \<Rightarrow> server_state \<Rightarrow> effect list \<times> server_state" where
  "post_bulk fs_ok clock body s =
     (let ts = (if is_array (js_get body ''trips'') then arr_items (js_get body ''trips'') else [])
      in if ts = [] then ([Respond 200 (JObj [(''ok'', JBool True), (''upserted'', JNum 0)])], s)
         else let r = bulk_loop clock 0 ts (trips s, 0, []);
                  s1 = s\<lparr>trips := fst r\<rparr>;
                  w = writeData fs_ok s1
           in (fst w @ [Emit ''trip:bulk'' (JArr (map snd (snd (snd r)))),
                        Respond 200 (JObj [(''ok'', JBool True),
                                           (''upserted'', JNum (int (fst (snd r))))])],
               snd w))"

text \<open>
  Following the specification's words for the bulk upsert: an entry has a resolvable id
  when its id trims to a string that is not empty; the results are accumulated by
  normalizing each such entry, in order, against the map as the entries before it left
  it.
\<close>

definition resolves_id :: "jsval \<Rightarrow> bool" where
  "resolves_id t = (js_trim (js_String (js_or (js_get t ''id'') (JStr []))) \<noteq> [])"

fun accepted_results :: "(nat \<Rightarrow> string) \<Rightarrow> nat \<Rightarrow> jsval list \<Rightarrow> obj \<Rightarrow> jsval list" where
  "accepted_results clock n [] tr = []"
| "accepted_results clock n (t # ts) tr =
     (case normalizeTrip_server (clock n) tr t of
        None \<Rightarrow> accepted_results clock (Suc n) ts tr
      | Some merged \<Rightarrow>
          merged # accepted_results clock (Suc n) ts
                     (obj_set tr (js_String (js_get merged ''id'')) merged))"

section \<open>Properties\<close>

subsection \<open>Objects\<close>

lemma obj_keys_set: "obj_keys kvs = set (map fst kvs)"
proof (induction kvs)
  case Nil
  show ?case by simp
next
  case (Cons p kvs)
  then show ?case by (cases p) (simp del: set_map)
qed

lemma obj_get_absent: "k \<notin> obj_keys kvs \<Longrightarrow> obj_get kvs k = JUndef"
  by (induction kvs) auto

lemma keys_insert: "obj_keys (obj_insert k v kvs) = insert k (obj_keys kvs)"
  by (induction kvs) (auto split: if_splits)

lemma keys_update: "obj_keys (obj_update k v kvs) = obj_keys kvs"
  by (induction kvs) (auto split: if_splits)

lemma keys_set: "obj_keys (obj_set kvs k v) = insert k (obj_keys kvs)"
  by (auto simp: obj_set_def keys_insert keys_update)

lemma obj_get_insert:
  "k \<notin> obj_keys kvs \<Longrightarrow> obj_get (obj_insert k v kvs) k' = (if k' = k then v else obj_get kvs k')"
  by (induction kvs) (auto simp: keys_insert)

lemma obj_get_update:
  "obj_get (obj_update k v kvs) k' = (if k' = k \<and> k \<in> obj_keys kvs then v else obj_get kvs k')"
  by (induction kvs) (auto simp: keys_update obj_get_absent)

lemma obj_get_set: "obj_get (obj_set kvs k v) k' = (if k' = k then v else obj_get kvs k')"
  by (simp add: obj_set_def obj_get_insert obj_get_update)

lemma keys_append: "obj_keys (xs @ ys) = obj_keys xs \<union> obj_keys ys"
  by (induction xs) auto

lemma obj_get_snoc: "obj_get (kvs @ [(k, v)]) k' = (if k' = k then v else obj_get kvs k')"
  by (induction kvs) (auto simp: keys_append)

lemma obj_assign_Nil: "obj_assign target [] = target"
  by (simp add: obj_assign_def)

lemma obj_assign_snoc: "obj_assign target (src @ [(k, v)]) = obj_set (obj_assign target src) k v"
  by (simp add: obj_assign_def)

lemma obj_assign_append: "obj_assign target (xs @ ys) = obj_assign (obj_assign target xs) ys"
  by (simp add: obj_assign_def)

lemma obj_assign_Cons: "obj_assign target ((k, v) # src) = obj_assign (obj_set target k v) src"
  by (simp add: obj_assign_def)

lemma obj_get_assign:
  "obj_get (obj_assign target src) k
     = (if k \<in> obj_keys src then obj_get src k else obj_get target k)"
proof (induction src rule: rev_induct)
  case Nil
  show ?case by (simp add: obj_assign_Nil)
next
  case (snoc p src)
  obtain a b where p: "p = (a, b)" by (cases p)
  show ?case
    using snoc.IH by (simp add: p obj_assign_snoc obj_get_set obj_get_snoc keys_append)
qed

lemma obj_get_copy: "obj_get (obj_assign [] src) k = obj_get src k"
  by (simp add: obj_get_assign obj_get_absent)

subsection \<open>The two normalizers\<close>

lemma obj_get_append:
  "obj_get (xs @ ys) k = (if k \<in> obj_keys ys then obj_get ys k else obj_get xs k)"
  by (induction xs) (auto simp: keys_append obj_get_absent)

lemma server_fields:
  assumes "normalizeTrip_server now tr t = Some r"
  shows "js_get r ''updatedAt'' = JStr now"
    and "js_get r ''id'' = JStr (js_trim (js_String (js_or (js_get t ''id'') (JStr []))))"
    and "js_get r ''createdAt'' =
           js_or (js_or (js_get (js_or (obj_get tr (js_trim (js_String (js_or (js_get t ''id'') (JStr [])))))
                                   (JObj [])) ''createdAt'')
                        (js_get t ''createdAt'')) (JStr now)"
  using assms
  by (auto simp: normalizeTrip_server_def Let_def obj_get_copy obj_get_append keys_append
        split: if_splits)

lemma client_fields:
  assumes "normalizeTrip_client now1 now2 t = Some r"
  shows "js_get r ''updatedAt'' = js_or (js_get t ''updatedAt'') (JStr now2)"
    and "js_get r ''createdAt'' = js_or (js_get t ''createdAt'') (JStr now1)"
    and "js_get r ''id'' = JStr (js_trim (js_String
                 (js_or (js_or (js_or (js_get t ''id'') (js_get t ''reqId''))
                    (js_get t ''requestId'')) (JStr []))))"
  using assms
  by (auto simp: normalizeTrip_client_def Let_def obj_get_assign
        split: if_splits)

text \<open>
  Claim C1, as amended. The server's normalizer sets \<^verbatim>\<open>updatedAt\<close> of every record it
  accepts to the clock reading of the call, whatever the record and the stored version
  carry. The bridge's normalizer does not: it keeps the \<^verbatim>\<open>updatedAt\<close> the record comes
  with when that is truthy, and reads the clock only otherwise.
\<close>

theorem normalizeTrip_updatedAt:
  "(normalizeTrip_server now tr t = Some r \<longrightarrow> js_get r ''updatedAt'' = JStr now)
   \<and> (normalizeTrip_client now1 now2 t' = Some r' \<longrightarrow>
        js_get r' ''updatedAt'' = (if truthy (js_get t' ''updatedAt'') then js_get t' ''updatedAt''
                                   else JStr now2))"
  using server_fields(1) [of now tr t r] client_fields(1) [of now1 now2 t' r']
  by (simp add: js_or_def)

text \<open>
  The amended C1 at a record the server sent out on 1 November and that both sides
  normalize on 3 November: the server stamps the new time, the bridge keeps the old one.
\<close>

theorem normalizeTrip_updatedAt_witness:
  "normalizeTrip_server ''2026-11-03T10:00:00.000Z'' []
     (JObj [(''id'', JStr ''t1''), (''updatedAt'', JStr ''2026-11-01T08:00:00.000Z'')])
     = Some (JObj [(''id'', JStr ''t1''), (''updatedAt'', JStr ''2026-11-03T10:00:00.000Z''),
                   (''createdAt'', JStr ''2026-11-03T10:00:00.000Z'')])
   \<and> js_get (JObj [(''id'', JStr ''t1''), (''updatedAt'', JStr ''2026-11-03T10:00:00.000Z''),
                   (''createdAt'', JStr ''2026-11-03T10:00:00.000Z'')]) ''updatedAt''
       = JStr ''2026-11-03T10:00:00.000Z''
   \<and> normalizeTrip_client ''2026-11-03T10:00:00.000Z'' ''2026-11-03T10:00:00.001Z''
       (JObj [(''id'', JStr ''t1''), (''updatedAt'', JStr ''2026-11-01T08:00:00.000Z'')])
     = Some (JObj [(''id'', JStr ''t1''), (''updatedAt'', JStr ''2026-11-01T08:00:00.000Z''),
                   (''createdAt'', JStr ''2026-11-03T10:00:00.000Z'')])
   \<and> js_get (JObj [(''id'', JStr ''t1''), (''updatedAt'', JStr ''2026-11-01T08:00:00.000Z''),
                   (''createdAt'', JStr ''2026-11-03T10:00:00.000Z'')]) ''updatedAt''
       = JStr ''2026-11-01T08:00:00.000Z''"
proof -
  let ?t = "JObj [(''id'', JStr ''t1''), (''updatedAt'', JStr ''2026-11-01T08:00:00.000Z'')]"
  let ?rs = "JObj [(''id'', JStr ''t1''), (''updatedAt'', JStr ''2026-11-03T10:00:00.000Z''),
                   (''createdAt'', JStr ''2026-11-03T10:00:00.000Z'')]"
  let ?rc = "JObj [(''id'', JStr ''t1''), (''updatedAt'', JStr ''2026-11-01T08:00:00.000Z''),
                   (''createdAt'', JStr ''2026-11-03T10:00:00.000Z'')]"
  have s: "normalizeTrip_server ''2026-11-03T10:00:00.000Z'' [] ?t = Some ?rs"
    by code_simp
  have c: "normalizeTrip_client ''2026-11-03T10:00:00.000Z'' ''2026-11-03T10:00:00.001Z'' ?t
             = Some ?rc"
    by code_simp
  have tr: "truthy (js_get ?t ''updatedAt'')"
    by simp
  show ?thesis
    using s c tr
      normalizeTrip_updatedAt [of "''2026-11-03T10:00:00.000Z''" "[]" ?t ?rs
        "''2026-11-03T10:00:00.000Z''" "''2026-11-03T10:00:00.001Z''" ?t ?rc]
    by simp
qed

text \<open>
  Claim C1 as stated fails on the bridge: a record that already carries an
  \<^verbatim>\<open>updatedAt\<close> comes back from \<^verbatim>\<open>normalizeTrip\<close> with that same value, two days older
  than the clock reading of the pass.
\<close>

theorem normalizeTrip_client_keeps_updatedAt_counterexample:
  "normalizeTrip_client ''2026-11-03T10:00:00.000Z'' ''2026-11-03T10:00:00.000Z''
     (JObj [(''id'', JStr ''t1''), (''status'', JStr ''Pending''),
            (''createdAt'', JStr ''2026-11-01T08:00:00.000Z''),
            (''updatedAt'', JStr ''2026-11-01T08:00:00.000Z'')])
   = Some (JObj [(''id'', JStr ''t1''), (''status'', JStr ''Pending''),
            (''createdAt'', JStr ''2026-11-01T08:00:00.000Z''),
            (''updatedAt'', JStr ''2026-11-01T08:00:00.000Z'')])"
  by code_simp

lemma js_trim_Nil: "js_trim [] = []"
  by (simp add: js_trim_def)

lemma server_null_iff:
  "(normalizeTrip_server now tr t = None) \<longleftrightarrow>
      (\<not> truthy (js_get t ''id'') \<or> js_trim (js_String (js_get t ''id'')) = [])"
proof (cases "truthy (js_get t ''id'')")
  case True
  then have "js_or (js_get t ''id'') (JStr []) = js_get t ''id''"
    by (simp add: js_or_def)
  then show ?thesis
    using True by (simp add: normalizeTrip_server_def Let_def)
next
  case False
  then have "js_or (js_get t ''id'') (JStr []) = JStr []"
    by (simp add: js_or_def)
  then show ?thesis
    using False by (simp add: normalizeTrip_server_def Let_def js_trim_Nil)
qed

lemma client_null_iff:
  "(normalizeTrip_client now1 now2 t = None) \<longleftrightarrow>
      (\<not> truthy t \<or>
       js_trim (js_String (js_or (js_or (js_or (js_get t ''id'') (js_get t ''reqId''))
                  (js_get t ''requestId'')) (JStr []))) = [])"
  by (simp add: normalizeTrip_client_def Let_def)

text \<open>
  Claim C5, as amended. The server's normalizer returns null exactly when \<^verbatim>\<open>id\<close> is
  falsy (missing, null, the empty string, zero, false) or its string is blank after
  trimming. The bridge's normalizer returns null exactly when the record itself is falsy
  or the first truthy one of \<^verbatim>\<open>id\<close>, \<^verbatim>\<open>reqId\<close>, \<^verbatim>\<open>requestId\<close> is missing or blank after
  trimming: a record without \<^verbatim>\<open>id\<close> is accepted under its \<^verbatim>\<open>reqId\<close> or \<^verbatim>\<open>requestId\<close>.
\<close>

theorem normalizeTrip_null_iff:
  "((normalizeTrip_server now tr t = None) \<longleftrightarrow>
      (\<not> truthy (js_get t ''id'') \<or> js_trim (js_String (js_get t ''id'')) = []))
   \<and> ((normalizeTrip_client now1 now2 t' = None) \<longleftrightarrow>
      (\<not> truthy t' \<or>
       js_trim (js_String (js_or (js_or (js_or (js_get t' ''id'') (js_get t' ''reqId''))
                  (js_get t' ''requestId'')) (JStr []))) = []))"
  using server_null_iff [of now tr t] client_null_iff [of now1 now2 t'] by (rule conjI)

text \<open>
  The amended C5 at a blank id, which the server rejects although a \<^verbatim>\<open>reqId\<close> is
  there, at a blank id without fallback on the bridge, and at null.
\<close>

theorem normalizeTrip_null_iff_witness:
  "normalizeTrip_server ''2026-11-03T10:00:00.000Z'' []
      (JObj [(''id'', JStr ''  ''), (''reqId'', JStr ''r1'')]) = None
   \<and> normalizeTrip_client ''2026-11-03T10:00:00.000Z'' ''2026-11-03T10:00:00.000Z''
      (JObj [(''id'', JStr ''  '')]) = None
   \<and> normalizeTrip_client ''2026-11-03T10:00:00.000Z'' ''2026-11-03T10:00:00.000Z'' JNull = None"
proof -
  let ?a = "JObj [(''id'', JStr ''  ''), (''reqId'', JStr ''r1'')]"
  let ?b = "JObj [(''id'', JStr ''  '')]"
  let ?n = "''2026-11-03T10:00:00.000Z''"
  have a: "js_trim (js_String (js_get ?a ''id'')) = []"
    by code_simp
  have b: "js_trim (js_String (js_or (js_or (js_or (js_get ?b ''id'') (js_get ?b ''reqId''))
             (js_get ?b ''requestId'')) (JStr []))) = []"
    by code_simp
  have c: "\<not> truthy JNull" by simp
  have 1: "normalizeTrip_server ?n [] ?a = None"
    using a normalizeTrip_null_iff [where t = ?a and tr = "[]" and now = ?n]
    by blast
  have 2: "normalizeTrip_client ?n ?n ?b = None"
    using b normalizeTrip_null_iff [where t' = ?b and ?now1.0 = ?n and ?now2.0 = ?n]
    by blast
  have 3: "normalizeTrip_client ?n ?n JNull = None"
    using c normalizeTrip_null_iff [where t' = JNull and ?now1.0 = ?n and ?now2.0 = ?n]
    by blast
  show ?thesis using 1 2 3 by (intro conjI)
qed

text \<open>
  Claim C5 as stated fails on the bridge: a record whose \<^verbatim>\<open>id\<close> is missing is accepted
  when it has a \<^verbatim>\<open>reqId\<close>, which becomes its id.
\<close>

theorem normalizeTrip_client_reqId_counterexample:
  "js_get (JObj [(''reqId'', JStr ''r1'')]) ''id'' = JUndef
   \<and> normalizeTrip_client ''2026-11-03T10:00:00.000Z'' ''2026-11-03T10:00:00.000Z''
        (JObj [(''reqId'', JStr ''r1'')])
      = Some (JObj [(''reqId'', JStr ''r1''), (''id'', JStr ''r1''),
                    (''createdAt'', JStr ''2026-11-03T10:00:00.000Z''),
                    (''updatedAt'', JStr ''2026-11-03T10:00:00.000Z'')])"
  by code_simp

subsection \<open>The classifier\<close>

text \<open>
  Claim C2, as amended. \<^verbatim>\<open>statusBucket\<close> is a function of the status alone, returns one
  of the six buckets on every input, and tests the lower-cased text in the fixed order
  completed-or-final, approved, rejected, policy, manager, with pending as the default. So
  a status is classified as rejected exactly when its lower-cased text contains
  \<^verbatim>\<open>rejected\<close> and none of \<^verbatim>\<open>completed\<close>, \<^verbatim>\<open>final\<close>, \<^verbatim>\<open>approved\<close>, whether or not it
  contains \<^verbatim>\<open>manager\<close>; one that contains \<^verbatim>\<open>manager\<close>, \<^verbatim>\<open>rejected\<close> and also
  \<^verbatim>\<open>approved\<close> is classified as approved.
\<close>

theorem statusBucket_priority:
  "(js_includes (lowered status) ''completed'' \<or> js_includes (lowered status) ''final''
      \<longrightarrow> statusBucket status = ''completed'')
   \<and> (\<not> js_includes (lowered status) ''completed'' \<and> \<not> js_includes (lowered status) ''final''
      \<and> js_includes (lowered status) ''approved'' \<longrightarrow> statusBucket status = ''approved'')
   \<and> (\<not> js_includes (lowered status) ''completed'' \<and> \<not> js_includes (lowered status) ''final''
      \<and> \<not> js_includes (lowered status) ''approved''
      \<and> js_includes (lowered status) ''rejected'' \<longrightarrow> statusBucket status = ''rejected'')
   \<and> (\<not> js_includes (lowered status) ''completed'' \<and> \<not> js_includes (lowered status) ''final''
      \<and> \<not> js_includes (lowered status) ''approved''
      \<and> \<not> js_includes (lowered status) ''rejected''
      \<and> js_includes (lowered status) ''policy'' \<longrightarrow> statusBucket status = ''policy_violation'')
   \<and> (\<not> js_includes (lowered status) ''completed'' \<and> \<not> js_includes (lowered status) ''final''
      \<and> \<not> js_includes (lowered status) ''approved''
      \<and> \<not> js_includes (lowered status) ''rejected''
      \<and> \<not> js_includes (lowered status) ''policy''
      \<and> js_includes (lowered status) ''manager'' \<longrightarrow> statusBucket status = ''pending_manager'')
   \<and> (\<not> js_includes (lowered status) ''completed'' \<and> \<not> js_includes (lowered status) ''final''
      \<and> \<not> js_includes (lowered status) ''approved''
      \<and> \<not> js_includes (lowered status) ''rejected''
      \<and> \<not> js_includes (lowered status) ''policy''
      \<and> \<not> js_includes (lowered status) ''manager'' \<longrightarrow> statusBucket status = ''pending'')
   \<and> statusBucket status \<in> set buckets"
  by (simp add: statusBucket_def buckets_def Let_def)

text \<open>
  The amended C2 at the status the specification names, and at one status for each of
  the other five buckets.
\<close>

theorem statusBucket_priority_witness:
  "statusBucket (JStr ''Pending Manager Approval - Rejected'') = ''rejected''
   \<and> statusBucket (JStr ''Final Approved'') = ''completed''
   \<and> statusBucket (JStr ''Approved by Manager'') = ''approved''
   \<and> statusBucket (JStr ''Policy check by manager'') = ''policy_violation''
   \<and> statusBucket (JStr ''Pending Manager Approval'') = ''pending_manager''
   \<and> statusBucket (JStr ''Quotation Sent to User'') = ''pending''"
proof -
  let ?a = "lowered (JStr ''Pending Manager Approval - Rejected'')"
  let ?b = "lowered (JStr ''Final Approved'')"
  let ?c = "lowered (JStr ''Approved by Manager'')"
  let ?d = "lowered (JStr ''Policy check by manager'')"
  let ?e = "lowered (JStr ''Pending Manager Approval'')"
  let ?f = "lowered (JStr ''Quotation Sent to User'')"
  have a: "\<not> js_includes ?a ''completed'' \<and> \<not> js_includes ?a ''final''
      \<and> \<not> js_includes ?a ''approved'' \<and> js_includes ?a ''rejected''"
    by code_simp
  have b: "js_includes ?b ''completed'' \<or> js_includes ?b ''final''"
    by code_simp
  have c: "\<not> js_includes ?c ''completed'' \<and> \<not> js_includes ?c ''final''
      \<and> js_includes ?c ''approved''"
    by code_simp
  have d: "\<not> js_includes ?d ''completed'' \<and> \<not> js_includes ?d ''final''
      \<and> \<not> js_includes ?d ''approved'' \<and> \<not> js_includes ?d ''rejected''
      \<and> js_includes ?d ''policy''"
    by code_simp
  have e: "\<not> js_includes ?e ''completed'' \<and> \<not> js_includes ?e ''final''
      \<and> \<not> js_includes ?e ''approved'' \<and> \<not> js_includes ?e ''rejected''
      \<and> \<not> js_includes ?e ''policy'' \<and> js_includes ?e ''manager''"
    by code_simp
  have f: "\<not> js_includes ?f ''completed'' \<and> \<not> js_includes ?f ''final''
      \<and> \<not> js_includes ?f ''approved'' \<and> \<not> js_includes ?f ''rejected''
      \<and> \<not> js_includes ?f ''policy'' \<and> \<not> js_includes ?f ''manager''"
    by code_simp
  have 1: "statusBucket (JStr ''Pending Manager Approval - Rejected'') = ''rejected''"
    using a statusBucket_priority [of "JStr ''Pending Manager Approval - Rejected''"] by blast
  have 2: "statusBucket (JStr ''Final Approved'') = ''completed''"
    using b statusBucket_priority [of "JStr ''Final Approved''"] by blast
  have 3: "statusBucket (JStr ''Approved by Manager'') = ''approved''"
    using c statusBucket_priority [of "JStr ''Approved by Manager''"] by blast
  have 4: "statusBucket (JStr ''Policy check by manager'') = ''policy_violation''"
    using d statusBucket_priority [of "JStr ''Policy check by manager''"] by blast
  have 5: "statusBucket (JStr ''Pending Manager Approval'') = ''pending_manager''"
    using e statusBucket_priority [of "JStr ''Pending Manager Approval''"] by blast
  have 6: "statusBucket (JStr ''Quotation Sent to User'') = ''pending''"
    using f statusBucket_priority [of "JStr ''Quotation Sent to User''"] by blast
  show ?thesis using 1 2 3 4 5 6 by (intro conjI)
qed

text \<open>
  Claim C2 as stated fails: a status that contains both \<^verbatim>\<open>manager\<close> and \<^verbatim>\<open>rejected\<close> is
  classified as approved when it contains \<^verbatim>\<open>approved\<close> too, since that test comes first.
\<close>

theorem statusBucket_manager_rejected_counterexample:
  "js_includes ''manager approved, rejected by finance'' ''manager''
   \<and> js_includes ''manager approved, rejected by finance'' ''rejected''
   \<and> statusBucket (JStr ''manager approved, rejected by finance'') = ''approved''"
  by code_simp

subsection \<open>The local mirror\<close>

lemma foldl_keys_get:
  assumes step: "\<And>st b k. obj_get (step st b) k = (if k = b then f b (obj_get st b) else obj_get st k)"
    and "distinct bs"
  shows "obj_get (foldl step st bs) k = (if k \<in> set bs then f k (obj_get st k) else obj_get st k)"
  using assms(2)
proof (induction bs arbitrary: st)
  case Nil
  show ?case by simp
next
  case (Cons b bs)
  then show ?case by (auto simp: step)
qed

lemma distinct_buckets: "distinct buckets"
  by (simp add: buckets_def)

lemma arr_items_or: "arr_items (js_or v (JArr [])) = arr_items v"
  by (cases v) (simp_all add: js_or_def)

lemma ensure_arrays_get:
  "obj_get (ensure_arrays st) k =
     (if k \<in> set buckets \<and> \<not> is_array (obj_get st k) then JArr [] else obj_get st k)"
proof -
  have "obj_get (ensure_arrays st) k =
          (if k \<in> set buckets then (if is_array (obj_get st k) then obj_get st k else JArr [])
           else obj_get st k)"
    unfolding ensure_arrays_def
    by (rule foldl_keys_get) (simp_all add: obj_get_set distinct_buckets)
  then show ?thesis by simp
qed

lemma ensure_arrays_items: "arr_items (obj_get (ensure_arrays st) k) = arr_items (obj_get st k)"
  by (cases "obj_get st k") (simp_all add: ensure_arrays_get)

lemma reset_buckets_get:
  "obj_get (reset_buckets st) k = (if k \<in> set buckets then JArr [] else obj_get st k)"
  unfolding reset_buckets_def
  by (rule foldl_keys_get) (simp_all add: obj_get_set distinct_buckets)

lemma remove_id_get:
  "obj_get (remove_id st i) k =
     (if k \<in> set buckets then JArr (filter (\<lambda>x. entry_id x \<noteq> i) (arr_items (obj_get st k)))
      else obj_get st k)"
proof -
  have "obj_get (remove_id st i) k =
     (if k \<in> set buckets
      then JArr (filter (\<lambda>x. entry_id x \<noteq> i) (arr_items (js_or (obj_get st k) (JArr []))))
      else obj_get st k)"
    unfolding remove_id_def
    by (rule foldl_keys_get) (simp_all add: obj_get_set distinct_buckets)
  then show ?thesis by (simp add: arr_items_or)
qed

lemma statusBucket_in_buckets: "statusBucket v \<in> set buckets"
  by (simp add: statusBucket_def buckets_def Let_def)

lemma merge_one_items:
  assumes "b \<in> set buckets"
  shows "arr_items (obj_get (merge_one st tr) b) =
           (if b = statusBucket (js_get tr ''status'') then [tr] else [])
           @ filter (\<lambda>x. entry_id x \<noteq> js_String (js_get tr ''id'')) (arr_items (obj_get st b))"
  using assms
  by (simp add: merge_one_def Let_def obj_get_set remove_id_get statusBucket_in_buckets)

lemma client_accepts_obj:
  assumes "normalizeTrip_client now1 now2 r = Some t"
  shows "\<exists>kvs. r = JObj kvs"
proof (cases r)
  case (JObj kvs)
  then show ?thesis by simp
qed (use assms in \<open>simp_all add: normalizeTrip_client_def js_or_def js_trim_def Let_def
        split: if_splits\<close>)

lemma client_result_obj:
  assumes "normalizeTrip_client now1 now2 r = Some t"
  shows "\<exists>kvs. t = JObj kvs"
  using assms by (auto simp: normalizeTrip_client_def Let_def split: if_splits)

lemma client_status:
  assumes "normalizeTrip_client now1 now2 r = Some t"
  shows "js_get t ''status'' = js_get r ''status''"
proof -
  obtain kvs where r: "r = JObj kvs" using client_accepts_obj [OF assms] by blast
  show ?thesis
    using assms
    by (auto simp: r normalizeTrip_client_def Let_def obj_get_assign obj_get_copy obj_get_absent
          split: if_splits)
qed

lemma client_id_nonempty:
  assumes "normalizeTrip_client now1 now2 r = Some t"
  shows "\<exists>i. js_get t ''id'' = JStr i \<and> i \<noteq> []"
  using assms
  by (auto simp: normalizeTrip_client_def Let_def obj_get_assign split: if_splits)

lemma client_entry_id:
  assumes "normalizeTrip_client now1 now2 r = Some t"
  shows "entry_id t = js_String (js_get t ''id'')"
proof -
  obtain kvs where "t = JObj kvs" using client_result_obj [OF assms] by blast
  then show ?thesis by (simp add: entry_id_def js_and_def)
qed

lemma normalize_list_single:
  assumes "normalizeTrip_client (clock 0) (clock 1) r = Some t"
  shows "normalize_list clock 0 [r] = [t]"
  using assms by simp

lemma mirror_merge_single:
  assumes "normalizeTrip_client (clock 0) (clock 1) r = Some t"
  shows "mirrorTripsToLocal clock (JArr [r]) True s =
           (None, s\<lparr>suppress_on := True, global_map := upsert_global (global_map s) t,
                    desk_store := merge_one (ensure_arrays (desk_store s)) t,
                    lower_queued := lower_queued s + 1\<rparr>)"
  using assms by (simp add: mirrorTripsToLocal_def Let_def)

lemma normalize_list_all_rejected:
  assumes "\<forall>t \<in> set ts. normalizeTrip_client n1 n2 t = None"
  shows "normalize_list clock i ts = []"
  using assms
proof (induction ts arbitrary: i)
  case Nil
  show ?case by simp
next
  case (Cons t ts)
  have "normalizeTrip_client n1 n2 t = None" using Cons.prems by simp
  then have "normalizeTrip_client (clock (2 * i)) (clock (2 * i + 1)) t = None"
    by (simp add: client_null_iff)
  then show ?case using Cons by simp
qed

lemma count_list_filter_neq: "count_list (map f (filter (\<lambda>x. f x \<noteq> i) xs)) i = 0"
  by (induction xs) auto

text \<open>
  Claim C3. A record the bridge's normalizer accepts is applied in merge mode to any
  state: no exception leaves \<^verbatim>\<open>mirrorTripsToLocal\<close>, and afterwards the record's id
  (compared as the merge compares, \<^verbatim>\<open>String(x && x.id)\<close>) occurs exactly once in the
  bucket list the classifier gives for the record's status and in none of the other five.
\<close>

theorem merge_exactly_one_bucket:
  assumes "normalizeTrip_client (clock 0) (clock 1) r = Some t"
  shows "fst (mirrorTripsToLocal clock (JArr [r]) True s) = None
         \<and> (\<forall>b \<in> set buckets.
              count_list (map entry_id
                (arr_items (obj_get (desk_store (snd (mirrorTripsToLocal clock (JArr [r]) True s))) b)))
                (js_String (js_get t ''id''))
              = (if b = statusBucket (js_get r ''status'') then 1 else 0))"
proof -
  have st: "js_get t ''status'' = js_get r ''status''"
    by (rule client_status [OF assms])
  have eid: "entry_id t = js_String (js_get t ''id'')"
    by (rule client_entry_id [OF assms])
  show ?thesis
    by (simp add: mirror_merge_single [OF assms] merge_one_items st eid count_list_filter_neq)
qed

text \<open>
  C3 where record \<^verbatim>\<open>t1\<close> sits in \<^verbatim>\<open>pending\<close> and, by a stale write of a page, in
  \<^verbatim>\<open>rejected\<close> as well, and the event of its approval arrives: afterwards \<^verbatim>\<open>t1\<close> is in
  \<^verbatim>\<open>approved\<close> once and nowhere else.
\<close>

theorem merge_exactly_one_bucket_witness:
  "count_list (map entry_id (arr_items (obj_get (desk_store (snd
      (mirrorTripsToLocal (\<lambda>n. ''2026-11-03T10:00:00.000Z'')
         (JArr [JObj [(''id'', JStr ''t1''), (''status'', JStr ''Approved''),
                      (''createdAt'', JStr ''2026-11-01T08:00:00.000Z''),
                      (''updatedAt'', JStr ''2026-11-02T09:00:00.000Z'')]])
         True
         \<lparr>global_map = [],
          desk_store = [(''pending'', JArr [JObj [(''id'', JStr ''t1''), (''status'', JStr ''Pending'')],
                                           JObj [(''id'', JStr ''t2'')]]),
                        (''rejected'', JArr [JObj [(''id'', JStr ''t1'')]])],
          suppress_on = False, pushTimer = None, lower_queued = 0,
          pushes_started = 0, posted = []\<rparr>))) ''approved''))) ''t1'' = 1
   \<and> count_list (map entry_id (arr_items (obj_get (desk_store (snd
      (mirrorTripsToLocal (\<lambda>n. ''2026-11-03T10:00:00.000Z'')
         (JArr [JObj [(''id'', JStr ''t1''), (''status'', JStr ''Approved''),
                      (''createdAt'', JStr ''2026-11-01T08:00:00.000Z''),
                      (''updatedAt'', JStr ''2026-11-02T09:00:00.000Z'')]])
         True
         \<lparr>global_map = [],
          desk_store = [(''pending'', JArr [JObj [(''id'', JStr ''t1''), (''status'', JStr ''Pending'')],
                                           JObj [(''id'', JStr ''t2'')]]),
                        (''rejected'', JArr [JObj [(''id'', JStr ''t1'')]])],
          suppress_on = False, pushTimer = None, lower_queued = 0,
          pushes_started = 0, posted = []\<rparr>))) ''pending''))) ''t1'' = 0
   \<and> count_list (map entry_id (arr_items (obj_get (desk_store (snd
      (mirrorTripsToLocal (\<lambda>n. ''2026-11-03T10:00:00.000Z'')
         (JArr [JObj [(''id'', JStr ''t1''), (''status'', JStr ''Approved''),
                      (''createdAt'', JStr ''2026-11-01T08:00:00.000Z''),
                      (''updatedAt'', JStr ''2026-11-02T09:00:00.000Z'')]])
         True
         \<lparr>global_map = [],
          desk_store = [(''pending'', JArr [JObj [(''id'', JStr ''t1''), (''status'', JStr ''Pending'')],
                                           JObj [(''id'', JStr ''t2'')]]),
                        (''rejected'', JArr [JObj [(''id'', JStr ''t1'')]])],
          suppress_on = False, pushTimer = None, lower_queued = 0,
          pushes_started = 0, posted = []\<rparr>))) ''rejected''))) ''t1'' = 0"
proof -
  let ?r = "JObj [(''id'', JStr ''t1''), (''status'', JStr ''Approved''),
            (''createdAt'', JStr ''2026-11-01T08:00:00.000Z''),
            (''updatedAt'', JStr ''2026-11-02T09:00:00.000Z'')]"
  let ?clock = "\<lambda>n::nat. ''2026-11-03T10:00:00.000Z''"
  let ?s = "\<lparr>global_map = [],
          desk_store = [(''pending'', JArr [JObj [(''id'', JStr ''t1''), (''status'', JStr ''Pending'')],
                                           JObj [(''id'', JStr ''t2'')]]),
                        (''rejected'', JArr [JObj [(''id'', JStr ''t1'')]])],
          suppress_on = False, pushTimer = None, lower_queued = 0,
          pushes_started = 0, posted = []\<rparr>"
  have h: "normalizeTrip_client (?clock 0) (?clock 1) ?r = Some ?r"
    by code_simp
  have b: "statusBucket (js_get ?r ''status'') = ''approved''"
    by code_simp
  have i: "js_String (js_get ?r ''id'') = ''t1''"
    by simp
  have m: "''approved'' \<in> set buckets" "''pending'' \<in> set buckets" "''rejected'' \<in> set buckets"
    by (simp_all add: buckets_def)
  note inst = merge_exactly_one_bucket [OF h, of ?s, unfolded b i, THEN conjunct2]
  show ?thesis
    using inst [THEN bspec, OF m(1)] inst [THEN bspec, OF m(2)] inst [THEN bspec, OF m(3)]
    by simp
qed

text \<open>
  Claim C10. When the list is not an array, is empty, or holds only entries the
  normalizer rejects, \<^verbatim>\<open>mirrorTripsToLocal\<close> returns at once in either mode: the
  canonical map, every bucket list, the flag and the timers are as before. An initial
  sync that pulls no record therefore clears no stale bucket.
\<close>

theorem mirror_nothing_accepted_unchanged:
  assumes "\<forall>t \<in> set (arr_items input). normalizeTrip_client n1 n2 t = None"
  shows "mirrorTripsToLocal clock input mergeOnly s = (None, s)"
  by (simp add: mirrorTripsToLocal_def normalize_list_all_rejected [OF assms])

text \<open>
  C10 at an initial sync: the server returns no record (or one without an id); the
  rebuild is asked for, and the bucket \<^verbatim>\<open>pending\<close> keeps its stale entry.
\<close>

theorem mirror_nothing_accepted_unchanged_witness:
  "mirrorTripsToLocal (\<lambda>n. ''2026-11-03T10:00:00.000Z'') (JArr []) False
     \<lparr>global_map = [], desk_store = [(''pending'', JArr [JObj [(''id'', JStr ''old'')]])],
      suppress_on = False, pushTimer = None, lower_queued = 0, pushes_started = 0, posted = []\<rparr>
   = (None,
     \<lparr>global_map = [], desk_store = [(''pending'', JArr [JObj [(''id'', JStr ''old'')]])],
      suppress_on = False, pushTimer = None, lower_queued = 0, pushes_started = 0, posted = []\<rparr>)
   \<and> mirrorTripsToLocal (\<lambda>n. ''2026-11-03T10:00:00.000Z'')
       (JArr [JObj [(''status'', JStr ''Approved'')]]) False
     \<lparr>global_map = [], desk_store = [(''pending'', JArr [JObj [(''id'', JStr ''old'')]])],
      suppress_on = False, pushTimer = None, lower_queued = 0, pushes_started = 0, posted = []\<rparr>
   = (None,
     \<lparr>global_map = [], desk_store = [(''pending'', JArr [JObj [(''id'', JStr ''old'')]])],
      suppress_on = False, pushTimer = None, lower_queued = 0, pushes_started = 0, posted = []\<rparr>)"
proof -
  have a: "\<forall>t \<in> set (arr_items (JArr [])). normalizeTrip_client [] [] t = None"
    by simp
  have b: "\<forall>t \<in> set (arr_items (JArr [JObj [(''status'', JStr ''Approved'')]])).
             normalizeTrip_client [] [] t = None"
    by code_simp
  show ?thesis
    using mirror_nothing_accepted_unchanged [OF a] mirror_nothing_accepted_unchanged [OF b]
    by simp
qed

subsection \<open>Rebuild against merge\<close>

lemma fst_update: "map fst (obj_update k v kvs) = map fst kvs"
  by (induction kvs) (auto split: if_splits)

lemma obj_keys_image: "obj_keys kvs = fst ` set kvs"
  by (simp add: obj_keys_set)

lemma distinct_keys_Cons:
  "distinct (map fst ((a, b) # kvs)) = (a \<notin> obj_keys kvs \<and> distinct (map fst kvs))"
  by (simp add: obj_keys_set del: set_map)

lemma distinct_insert:
  "k \<notin> obj_keys kvs \<Longrightarrow> distinct (map fst kvs) \<Longrightarrow> distinct (map fst (obj_insert k v kvs))"
proof (induction kvs)
  case Nil
  show ?case by simp
next
  case (Cons p kvs)
  obtain a b where p: "p = (a, b)" by (cases p)
  from Cons.prems have 1: "k \<noteq> a" "k \<notin> obj_keys kvs" "a \<notin> obj_keys kvs" "distinct (map fst kvs)"
    by (auto simp: p obj_keys_image)
  have ih: "distinct (map fst (obj_insert k v kvs))"
    by (rule Cons.IH [OF 1(2) 1(4)])
  show ?case
  proof (cases "key_before k a")
    case True
    have "distinct (map fst ((k, v) # (a, b) # kvs))"
      unfolding distinct_keys_Cons using 1 by simp
    then show ?thesis using True by (simp add: p)
  next
    case False
    have "distinct (map fst ((a, b) # obj_insert k v kvs))"
      unfolding distinct_keys_Cons using 1 ih by (simp add: keys_insert)
    then show ?thesis using False by (simp add: p)
  qed
qed

lemma distinct_set: "distinct (map fst kvs) \<Longrightarrow> distinct (map fst (obj_set kvs k v))"
  by (simp add: obj_set_def fst_update distinct_insert)

lemma distinct_assign:
  "distinct (map fst target) \<Longrightarrow> distinct (map fst (obj_assign target src))"
proof (induction src arbitrary: target)
  case Nil
  then show ?case by (simp add: obj_assign_Nil)
next
  case (Cons p src)
  obtain a b where p: "p = (a, b)" by (cases p)
  show ?case
    unfolding p obj_assign_Cons by (rule Cons.IH) (rule distinct_set [OF Cons.prems])
qed

lemma obj_update_absent: "k \<notin> obj_keys kvs \<Longrightarrow> obj_update k v kvs = kvs"
  by (induction kvs) auto

lemma obj_update_same:
  "distinct (map fst kvs) \<Longrightarrow> obj_get kvs k = v \<Longrightarrow> obj_update k v kvs = kvs"
proof (induction kvs)
  case Nil
  show ?case by simp
next
  case (Cons p kvs)
  obtain a b where p: "p = (a, b)" by (cases p)
  from Cons.prems(1) have 1: "a \<notin> obj_keys kvs" "distinct (map fst kvs)"
    by (auto simp: p obj_keys_image)
  show ?case
  proof (cases "a = k")
    case True
    then show ?thesis using 1 Cons.prems(2) by (simp add: p obj_update_absent)
  next
    case False
    then have "obj_get kvs k = v" using Cons.prems(2) by (simp add: p)
    then show ?thesis using False Cons.IH [OF 1(2)] by (simp add: p)
  qed
qed

lemma obj_set_same:
  "distinct (map fst kvs) \<Longrightarrow> k \<in> obj_keys kvs \<Longrightarrow> obj_get kvs k = v \<Longrightarrow> obj_set kvs k v = kvs"
  by (simp add: obj_set_def obj_update_same)

lemma key_mem: "(k, v) \<in> set kvs \<Longrightarrow> k \<in> obj_keys kvs"
  by (induction kvs) auto

lemma obj_get_mem: "distinct (map fst kvs) \<Longrightarrow> (k, v) \<in> set kvs \<Longrightarrow> obj_get kvs k = v"
proof (induction kvs)
  case Nil
  then show ?case by simp
next
  case (Cons p kvs)
  obtain a b where p: "p = (a, b)" by (cases p)
  from Cons.prems(1) have 1: "a \<notin> obj_keys kvs" "distinct (map fst kvs)"
    by (auto simp: p obj_keys_image)
  show ?case
  proof (cases "(k, v) = (a, b)")
    case True
    then show ?thesis using 1 by (simp add: p)
  next
    case False
    then have m: "(k, v) \<in> set kvs" using Cons.prems(2) by (auto simp: p)
    then have "k \<noteq> a" using 1(1) key_mem by blast
    then show ?thesis using Cons.IH [OF 1(2) m] by (simp add: p)
  qed
qed

lemma obj_assign_self:
  "distinct (map fst kvs) \<Longrightarrow> set src \<subseteq> set kvs \<Longrightarrow> obj_assign kvs src = kvs"
proof (induction src)
  case Nil
  show ?case by (simp add: obj_assign_Nil)
next
  case (Cons p src)
  obtain a b where p: "p = (a, b)" by (cases p)
  have m: "(a, b) \<in> set kvs" using Cons.prems(2) by (simp add: p)
  have "obj_set kvs a b = kvs"
    by (rule obj_set_same [OF Cons.prems(1) key_mem [OF m] obj_get_mem [OF Cons.prems(1) m]])
  then show ?case using Cons by (simp add: p obj_assign_Cons)
qed

lemma obj_get_key: "obj_get kvs k \<noteq> JUndef \<Longrightarrow> k \<in> obj_keys kvs"
  using obj_get_absent by blast

lemma own_record_distinct: "own_record k (JObj kvs) \<Longrightarrow> distinct (map fst kvs)"
  using distinct_assign [of "[]" kvs] by simp

lemma own_record_normalize:
  assumes "own_record k r"
  shows "normalizeTrip_client n1 n2 r = Some r"
proof (cases r)
  case (JObj kvs)
  have o: "own_record k (JObj kvs)" using assms JObj by simp
  have d: "distinct (map fst kvs)" by (rule own_record_distinct [OF o])
  have copy: "obj_assign [] kvs = kvs" and i: "obj_get kvs ''id'' = JStr k"
    and k: "k \<noteq> []" "js_trim k = k"
    and c: "truthy (obj_get kvs ''createdAt'')" and u: "truthy (obj_get kvs ''updatedAt'')"
    using o by simp_all
  have ki: "''id'' \<in> obj_keys kvs" using i by (intro obj_get_key) simp
  have kc: "''createdAt'' \<in> obj_keys kvs" using c by (intro obj_get_key) auto
  have ku: "''updatedAt'' \<in> obj_keys kvs" using u by (intro obj_get_key) auto
  have 1: "obj_set kvs ''id'' (JStr k) = kvs"
    by (rule obj_set_same [OF d ki i])
  have 2: "obj_set kvs ''createdAt'' (obj_get kvs ''createdAt'') = kvs"
    by (rule obj_set_same [OF d kc refl])
  have 3: "obj_set kvs ''updatedAt'' (obj_get kvs ''updatedAt'') = kvs"
    by (rule obj_set_same [OF d ku refl])
  show ?thesis
    using k c u
    by (simp add: JObj normalizeTrip_client_def Let_def i js_or_def copy obj_assign_Cons
          obj_assign_Nil 1 2 3)
qed (use assms in simp_all)

lemma own_record_entry_id: "own_record k r \<Longrightarrow> entry_id r = k"
  by (cases r) (simp_all add: entry_id_def js_and_def)

lemma own_record_id: "own_record k r \<Longrightarrow> js_String (js_get r ''id'') = k"
  by (cases r) simp_all

lemma normalize_list_own:
  "\<forall>r \<in> set rs. \<exists>k. own_record k r \<Longrightarrow> normalize_list clock i rs = rs"
proof (induction rs arbitrary: i)
  case Nil
  show ?case by simp
next
  case (Cons r rs)
  then obtain k where "own_record k r" by auto
  then have "normalizeTrip_client (clock (2 * i)) (clock (2 * i + 1)) r = Some r"
    by (rule own_record_normalize)
  then show ?case using Cons by simp
qed

lemma upsert_own:
  assumes d: "distinct (map fst g)" and m: "(k, r) \<in> set g" and o: "own_record k r"
  shows "upsert_global g r = g"
proof -
  obtain kvs where r: "r = JObj kvs" using o by (cases r) simp_all
  have dk: "distinct (map fst kvs)" using o own_record_distinct r by blast
  have copy: "obj_assign [] kvs = kvs" using o r by simp
  have g: "obj_get g k = JObj kvs" using obj_get_mem [OF d m] r by simp
  have self: "obj_assign kvs kvs = kvs" by (rule obj_assign_self [OF dk]) simp
  have "obj_set g k (JObj kvs) = g"
    by (rule obj_set_same [OF d key_mem g]) (use m in simp)
  then show ?thesis
    using own_record_id [OF o]
    by (simp add: upsert_global_def Let_def g js_or_def copy self r)
qed

lemma foldl_upsert_own:
  assumes "distinct (map fst g)" and "\<forall>r \<in> set rs. \<exists>k. (k, r) \<in> set g \<and> own_record k r"
  shows "foldl upsert_global g rs = g"
  using assms(2)
proof (induction rs)
  case Nil
  show ?case by simp
next
  case (Cons r rs)
  then obtain k where "(k, r) \<in> set g" "own_record k r" by auto
  then have "upsert_global g r = g" using upsert_own [OF assms(1)] by blast
  then show ?case using Cons by simp
qed

lemma rebuild_items:
  assumes "\<forall>k \<in> set ks. obj_get g k \<noteq> JNull \<and> obj_get g k \<noteq> JUndef"
  shows "\<exists>st'. rebuild_buckets g ks st = Inr st'
           \<and> (\<forall>b. arr_items (obj_get st' b) =
                  arr_items (obj_get st b)
                  @ filter (\<lambda>tr. statusBucket (js_get tr ''status'') = b) (map (obj_get g) ks))"
  using assms
proof (induction ks arbitrary: st)
  case Nil
  show ?case by simp
next
  case (Cons k ks)
  let ?tr = "obj_get g k"
  let ?b = "statusBucket (js_get ?tr ''status'')"
  let ?st1 = "obj_set st ?b (JArr (arr_items (obj_get st ?b) @ [?tr]))"
  have ok: "?tr \<noteq> JNull" "?tr \<noteq> JUndef" using Cons.prems by simp_all
  have rest: "\<forall>k \<in> set ks. obj_get g k \<noteq> JNull \<and> obj_get g k \<noteq> JUndef"
    using Cons.prems by simp
  obtain st' where st': "rebuild_buckets g ks ?st1 = Inr st'"
    and items: "\<forall>b. arr_items (obj_get st' b) =
                  arr_items (obj_get ?st1 b)
                  @ filter (\<lambda>tr. statusBucket (js_get tr ''status'') = b) (map (obj_get g) ks)"
    using Cons.IH [OF rest, of ?st1] by blast
  have "rebuild_buckets g (k # ks) st = Inr st'"
    using ok st' by (simp add: Let_def)
  moreover have "\<forall>b. arr_items (obj_get st' b) =
                  arr_items (obj_get st b)
                  @ filter (\<lambda>tr. statusBucket (js_get tr ''status'') = b) (map (obj_get g) (k # ks))"
    using items by (auto simp: obj_get_set)
  ultimately show ?case by blast
qed

lemma map_get_keys: "distinct (map fst g) \<Longrightarrow> map (obj_get g) (map fst g) = map snd g"
  by (auto simp: obj_get_mem)

lemma merge_step_items:
  assumes n: "normalizeTrip_client (clock 0) (clock 1) r = Some r" and b: "b \<in> set buckets"
    and fresh: "\<forall>x \<in> set (arr_items (obj_get (desk_store s) b)). entry_id x \<noteq> entry_id r"
  shows "arr_items (obj_get (desk_store (snd (mirrorTripsToLocal clock (JArr [r]) True s))) b)
           = (if b = statusBucket (js_get r ''status'') then [r] else [])
             @ arr_items (obj_get (desk_store s) b)"
proof -
  have eid: "js_String (js_get r ''id'') = entry_id r"
    using client_entry_id [OF n] by simp
  have "filter (\<lambda>x. entry_id x \<noteq> entry_id r) (arr_items (obj_get (desk_store s) b))
          = arr_items (obj_get (desk_store s) b)"
    using fresh by (simp add: filter_id_conv)
  then show ?thesis
    using b by (simp add: mirror_merge_single [OF n] merge_one_items ensure_arrays_items eid)
qed

lemma merge_each_items:
  assumes "\<forall>r \<in> set rs. \<forall>n1 n2. normalizeTrip_client n1 n2 r = Some r"
    and "distinct (map entry_id rs)"
    and "\<forall>r \<in> set rs. \<forall>b \<in> set buckets.
           \<forall>x \<in> set (arr_items (obj_get (desk_store s) b)). entry_id x \<noteq> entry_id r"
    and "b \<in> set buckets"
  shows "arr_items (obj_get (desk_store (merge_each clocks j rs s)) b)
           = rev (filter (\<lambda>r. statusBucket (js_get r ''status'') = b) rs)
             @ arr_items (obj_get (desk_store s) b)"
  using assms(1-3)
proof (induction rs arbitrary: s j)
  case Nil
  show ?case by simp
next
  case (Cons r rs)
  let ?s' = "snd (mirrorTripsToLocal (clocks j) (JArr [r]) True s)"
  have n: "normalizeTrip_client (clocks j 0) (clocks j 1) r = Some r"
    using Cons.prems(1) by simp
  have step: "\<And>b'. b' \<in> set buckets \<Longrightarrow>
      arr_items (obj_get (desk_store ?s') b')
        = (if b' = statusBucket (js_get r ''status'') then [r] else [])
          @ arr_items (obj_get (desk_store s) b')"
    using Cons.prems(3) by (intro merge_step_items [OF n]) simp_all
  have 1: "\<forall>r \<in> set rs. \<forall>n1 n2. normalizeTrip_client n1 n2 r = Some r"
    using Cons.prems(1) by simp
  have 2: "distinct (map entry_id rs)"
    using Cons.prems(2) by simp
  have 3: "\<forall>r' \<in> set rs. \<forall>b' \<in> set buckets.
           \<forall>x \<in> set (arr_items (obj_get (desk_store ?s') b')). entry_id x \<noteq> entry_id r'"
  proof (intro ballI)
    fix r' b' x
    assume r': "r' \<in> set rs" and b': "b' \<in> set buckets"
      and x: "x \<in> set (arr_items (obj_get (desk_store ?s') b'))"
    have "x = r \<or> x \<in> set (arr_items (obj_get (desk_store s) b'))"
      using x step [OF b'] by (auto split: if_splits)
    then show "entry_id x \<noteq> entry_id r'"
    proof
      assume "x = r"
      then show ?thesis using Cons.prems(2) r' by auto
    next
      assume "x \<in> set (arr_items (obj_get (desk_store s) b'))"
      then show ?thesis using Cons.prems(3) r' b' by simp
    qed
  qed
  have "arr_items (obj_get (desk_store (merge_each clocks (Suc j) rs ?s')) b)
          = rev (filter (\<lambda>r. statusBucket (js_get r ''status'') = b) rs)
            @ arr_items (obj_get (desk_store ?s') b)"
    by (rule Cons.IH [OF 1 2 3])
  then show ?case
    using step [OF assms(4)] by simp
qed

lemma mirror_rebuild_own:
  assumes d: "distinct (map fst g)" and o: "\<forall>(k, r) \<in> set g. own_record k r"
    and ne: "g \<noteq> []" and g: "global_map s = g"
  shows "\<exists>st'. mirrorTripsToLocal clock (JArr (map snd g)) False s
           = (None, s\<lparr>suppress_on := True, global_map := g, desk_store := st',
                      lower_queued := lower_queued s + 1\<rparr>)
         \<and> (\<forall>b \<in> set buckets. arr_items (obj_get st' b)
                = filter (\<lambda>r. statusBucket (js_get r ''status'') = b) (map snd g))"
proof -
  have own: "\<forall>r \<in> set (map snd g). \<exists>k. (k, r) \<in> set g \<and> own_record k r"
    using o by force
  then have own': "\<forall>r \<in> set (map snd g). \<exists>k. own_record k r"
    by blast
  have list: "normalize_list clock 0 (map snd g) = map snd g"
    by (rule normalize_list_own [OF own'])
  have up: "foldl upsert_global g (map snd g) = g"
    by (rule foldl_upsert_own [OF d own])
  have nn: "\<forall>k \<in> set (map fst g). obj_get g k \<noteq> JNull \<and> obj_get g k \<noteq> JUndef"
  proof
    fix k assume "k \<in> set (map fst g)"
    then obtain r where m: "(k, r) \<in> set g" by auto
    then have "own_record k r" using o by auto
    moreover have "obj_get g k = r" by (rule obj_get_mem [OF d m])
    ultimately show "obj_get g k \<noteq> JNull \<and> obj_get g k \<noteq> JUndef" by auto
  qed
  let ?st0 = "reset_buckets (ensure_arrays (desk_store s))"
  obtain st' where st': "rebuild_buckets g (map fst g) ?st0 = Inr st'"
    and items: "\<forall>b. arr_items (obj_get st' b) =
                  arr_items (obj_get ?st0 b)
                  @ filter (\<lambda>tr. statusBucket (js_get tr ''status'') = b)
                      (map (obj_get g) (map fst g))"
    using rebuild_items [OF nn, of ?st0] by blast
  have "mirrorTripsToLocal clock (JArr (map snd g)) False s
           = (None, s\<lparr>suppress_on := True, global_map := g, desk_store := st',
                      lower_queued := lower_queued s + 1\<rparr>)"
    using ne by (simp add: mirrorTripsToLocal_def Let_def list g up st')
  moreover have "\<forall>b \<in> set buckets. arr_items (obj_get st' b)
                = filter (\<lambda>r. statusBucket (js_get r ''status'') = b) (map snd g)"
    using items unfolding map_get_keys [OF d] by (simp add: reset_buckets_get)
  ultimately show ?thesis by blast
qed

text \<open>
  Claim C4, as amended. Take a canonical map that is not empty and whose entries are
  records as \<^verbatim>\<open>mirrorTripsToLocal\<close> leaves them (\<open>own_record\<close>). Applying all its records
  in rebuild mode throws nothing and fills every bucket with the records the classifier
  sends there, in map-iteration order. Starting from empty bucket lists and applying merge
  mode once per record in map-iteration order yields the same entries, with the same
  contents, in every bucket, in the opposite order: the rebuild appends, the merge puts
  the latest record first.
\<close>

theorem rebuild_is_reverse_of_merges:
  assumes "distinct (map fst g)" and "\<forall>(k, r) \<in> set g. own_record k r"
    and "g \<noteq> []" and "global_map s = g"
    and "\<forall>b \<in> set buckets. arr_items (obj_get (desk_store s0) b) = []"
  shows "fst (mirrorTripsToLocal clock (JArr (map snd g)) False s) = None
         \<and> (\<forall>b \<in> set buckets.
              arr_items (obj_get (desk_store (snd (mirrorTripsToLocal clock (JArr (map snd g)) False s))) b)
                = rev (arr_items (obj_get (desk_store (merge_each clocks 0 (map snd g) s0)) b))
              \<and> arr_items (obj_get (desk_store (snd (mirrorTripsToLocal clock (JArr (map snd g)) False s))) b)
                = filter (\<lambda>r. statusBucket (js_get r ''status'') = b) (map snd g))"
proof -
  obtain st' where m: "mirrorTripsToLocal clock (JArr (map snd g)) False s
           = (None, s\<lparr>suppress_on := True, global_map := g, desk_store := st',
                      lower_queued := lower_queued s + 1\<rparr>)"
    and items: "\<forall>b \<in> set buckets. arr_items (obj_get st' b)
                = filter (\<lambda>r. statusBucket (js_get r ''status'') = b) (map snd g)"
    using mirror_rebuild_own [OF assms(1-4)] by blast
  have 1: "\<forall>r \<in> set (map snd g). \<forall>n1 n2. normalizeTrip_client n1 n2 r = Some r"
    using assms(2) own_record_normalize by force
  have ids: "map entry_id (map snd g) = map fst g"
    using assms(2) by (auto simp: own_record_entry_id)
  have 2: "distinct (map entry_id (map snd g))"
    unfolding ids by (rule assms(1))
  have 3: "\<forall>r \<in> set (map snd g). \<forall>b \<in> set buckets.
           \<forall>x \<in> set (arr_items (obj_get (desk_store s0) b)). entry_id x \<noteq> entry_id r"
    using assms(5) by simp
  have merges: "\<forall>b \<in> set buckets.
      arr_items (obj_get (desk_store (merge_each clocks 0 (map snd g) s0)) b)
        = rev (filter (\<lambda>r. statusBucket (js_get r ''status'') = b) (map snd g))"
    using merge_each_items [OF 1 2 3] assms(5) by simp
  show ?thesis
    using m items merges by simp
qed

text \<open>
  The amended C4 at a map of three records, two of them pending: the rebuild lists
  \<^verbatim>\<open>a\<close> before \<^verbatim>\<open>c\<close>, the merges \<^verbatim>\<open>c\<close> before \<^verbatim>\<open>a\<close>.
\<close>

theorem rebuild_is_reverse_of_merges_witness:
  "arr_items (obj_get (desk_store (snd (mirrorTripsToLocal (\<lambda>n. ''2026-11-03T10:00:00.000Z'')
      (JArr [JObj [(''id'', JStr ''a''), (''status'', JStr ''Pending''),
                   (''createdAt'', JStr ''2026-11-01T08:00:00.000Z''),
                   (''updatedAt'', JStr ''2026-11-01T08:00:00.000Z'')],
             JObj [(''id'', JStr ''b''), (''status'', JStr ''Approved''),
                   (''createdAt'', JStr ''2026-11-01T09:00:00.000Z''),
                   (''updatedAt'', JStr ''2026-11-02T09:00:00.000Z'')],
             JObj [(''id'', JStr ''c''), (''status'', JStr ''Pending''),
                   (''createdAt'', JStr ''2026-11-02T08:00:00.000Z''),
                   (''updatedAt'', JStr ''2026-11-02T08:00:00.000Z'')]])
      False
      \<lparr>global_map =
         [(''a'', JObj [(''id'', JStr ''a''), (''status'', JStr ''Pending''),
                        (''createdAt'', JStr ''2026-11-01T08:00:00.000Z''),
                        (''updatedAt'', JStr ''2026-11-01T08:00:00.000Z'')]),
          (''b'', JObj [(''id'', JStr ''b''), (''status'', JStr ''Approved''),
                        (''createdAt'', JStr ''2026-11-01T09:00:00.000Z''),
                        (''updatedAt'', JStr ''2026-11-02T09:00:00.000Z'')]),
          (''c'', JObj [(''id'', JStr ''c''), (''status'', JStr ''Pending''),
                        (''createdAt'', JStr ''2026-11-02T08:00:00.000Z''),
                        (''updatedAt'', JStr ''2026-11-02T08:00:00.000Z'')])],
       desk_store = [(''pending'', JArr [JObj [(''id'', JStr ''old'')]])],
       suppress_on = False, pushTimer = None, lower_queued = 0,
       pushes_started = 0, posted = []\<rparr>))) ''pending'')
     = [JObj [(''id'', JStr ''a''), (''status'', JStr ''Pending''),
              (''createdAt'', JStr ''2026-11-01T08:00:00.000Z''),
              (''updatedAt'', JStr ''2026-11-01T08:00:00.000Z'')],
        JObj [(''id'', JStr ''c''), (''status'', JStr ''Pending''),
              (''createdAt'', JStr ''2026-11-02T08:00:00.000Z''),
              (''updatedAt'', JStr ''2026-11-02T08:00:00.000Z'')]]
   \<and> arr_items (obj_get (desk_store (merge_each (\<lambda>j n. ''2026-11-03T10:00:00.000Z'') 0
      [JObj [(''id'', JStr ''a''), (''status'', JStr ''Pending''),
             (''createdAt'', JStr ''2026-11-01T08:00:00.000Z''),
             (''updatedAt'', JStr ''2026-11-01T08:00:00.000Z'')],
       JObj [(''id'', JStr ''b''), (''status'', JStr ''Approved''),
             (''createdAt'', JStr ''2026-11-01T09:00:00.000Z''),
             (''updatedAt'', JStr ''2026-11-02T09:00:00.000Z'')],
       JObj [(''id'', JStr ''c''), (''status'', JStr ''Pending''),
             (''createdAt'', JStr ''2026-11-02T08:00:00.000Z''),
             (''updatedAt'', JStr ''2026-11-02T08:00:00.000Z'')]]
      \<lparr>global_map = [], desk_store = [],
       suppress_on = False, pushTimer = None, lower_queued = 0,
       pushes_started = 0, posted = []\<rparr>)) ''pending'')
     = [JObj [(''id'', JStr ''c''), (''status'', JStr ''Pending''),
              (''createdAt'', JStr ''2026-11-02T08:00:00.000Z''),
              (''updatedAt'', JStr ''2026-11-02T08:00:00.000Z'')],
        JObj [(''id'', JStr ''a''), (''status'', JStr ''Pending''),
              (''createdAt'', JStr ''2026-11-01T08:00:00.000Z''),
              (''updatedAt'', JStr ''2026-11-01T08:00:00.000Z'')]]"
proof -
  let ?a = "JObj [(''id'', JStr ''a''), (''status'', JStr ''Pending''),
                  (''createdAt'', JStr ''2026-11-01T08:00:00.000Z''),
                  (''updatedAt'', JStr ''2026-11-01T08:00:00.000Z'')]"
  let ?b = "JObj [(''id'', JStr ''b''), (''status'', JStr ''Approved''),
                  (''createdAt'', JStr ''2026-11-01T09:00:00.000Z''),
                  (''updatedAt'', JStr ''2026-11-02T09:00:00.000Z'')]"
  let ?c = "JObj [(''id'', JStr ''c''), (''status'', JStr ''Pending''),
                  (''createdAt'', JStr ''2026-11-02T08:00:00.000Z''),
                  (''updatedAt'', JStr ''2026-11-02T08:00:00.000Z'')]"
  let ?g = "[(''a'', ?a), (''b'', ?b), (''c'', ?c)]"
  let ?s = "\<lparr>global_map = ?g, desk_store = [(''pending'', JArr [JObj [(''id'', JStr ''old'')]])],
             suppress_on = False, pushTimer = None, lower_queued = 0,
             pushes_started = 0, posted = []\<rparr>"
  let ?e = "\<lparr>global_map = [], desk_store = [],
              suppress_on = False, pushTimer = None, lower_queued = 0,
              pushes_started = 0, posted = []\<rparr>"
  have 1: "distinct (map fst ?g)" by simp
  have 2: "\<forall>(k, r) \<in> set ?g. own_record k r" by code_simp
  have 3: "?g \<noteq> []" by simp
  have 4: "global_map ?s = ?g" by simp
  have 5: "\<forall>b \<in> set buckets. arr_items (obj_get (desk_store ?e) b) = []" by simp
  have p: "''pending'' \<in> set buckets" by (simp add: buckets_def)
  have sa: "statusBucket (js_get ?a ''status'') = ''pending''" by code_simp
  have sb: "statusBucket (js_get ?b ''status'') = ''approved''" by code_simp
  have sc: "statusBucket (js_get ?c ''status'') = ''pending''" by code_simp
  note inst = rebuild_is_reverse_of_merges [OF 1 2 3 4 5,
      of "\<lambda>n. ''2026-11-03T10:00:00.000Z''" "\<lambda>j n. ''2026-11-03T10:00:00.000Z''",
      THEN conjunct2, THEN bspec, OF p]
  have q: "filter (\<lambda>r. statusBucket (js_get r ''status'') = ''pending'') (map snd ?g) = [?a, ?c]"
    using sa sb sc by simp
  have r: "arr_items (obj_get (desk_store (snd (mirrorTripsToLocal
              (\<lambda>n. ''2026-11-03T10:00:00.000Z'') (JArr (map snd ?g)) False ?s))) ''pending'')
             = [?a, ?c]"
    using inst [THEN conjunct2] unfolding q .
  have "rev (arr_items (obj_get (desk_store (merge_each (\<lambda>j n. ''2026-11-03T10:00:00.000Z'') 0
              (map snd ?g) ?e)) ''pending'')) = [?a, ?c]"
    using inst [THEN conjunct1] unfolding r by simp
  then have m: "arr_items (obj_get (desk_store (merge_each (\<lambda>j n. ''2026-11-03T10:00:00.000Z'') 0
              (map snd ?g) ?e)) ''pending'') = [?c, ?a]"
    by (simp add: rev_swap)
  show ?thesis
    using r m by simp
qed

text \<open>
  Claim C4 as stated fails: for a map of two pending records the rebuild leaves
  \<^verbatim>\<open>pending\<close> as \<^verbatim>\<open>[a, c]\<close>, the two merges from empty buckets leave it as \<^verbatim>\<open>[c, a]\<close>.
\<close>

theorem rebuild_differs_from_merges_counterexample:
  "obj_get (desk_store (snd (mirrorTripsToLocal (\<lambda>n. ''2026-11-03T10:00:00.000Z'')
      (JArr [JObj [(''id'', JStr ''a''), (''createdAt'', JStr ''2026-11-01T08:00:00.000Z''),
                   (''updatedAt'', JStr ''2026-11-01T08:00:00.000Z'')],
             JObj [(''id'', JStr ''c''), (''createdAt'', JStr ''2026-11-02T08:00:00.000Z''),
                   (''updatedAt'', JStr ''2026-11-02T08:00:00.000Z'')]])
      False
      \<lparr>global_map =
         [(''a'', JObj [(''id'', JStr ''a''), (''createdAt'', JStr ''2026-11-01T08:00:00.000Z''),
                        (''updatedAt'', JStr ''2026-11-01T08:00:00.000Z'')]),
          (''c'', JObj [(''id'', JStr ''c''), (''createdAt'', JStr ''2026-11-02T08:00:00.000Z''),
                        (''updatedAt'', JStr ''2026-11-02T08:00:00.000Z'')])],
       desk_store = [], suppress_on = False, pushTimer = None, lower_queued = 0,
       pushes_started = 0, posted = []\<rparr>))) ''pending''
     = JArr [JObj [(''id'', JStr ''a''), (''createdAt'', JStr ''2026-11-01T08:00:00.000Z''),
                   (''updatedAt'', JStr ''2026-11-01T08:00:00.000Z'')],
             JObj [(''id'', JStr ''c''), (''createdAt'', JStr ''2026-11-02T08:00:00.000Z''),
                   (''updatedAt'', JStr ''2026-11-02T08:00:00.000Z'')]]
   \<and> obj_get (desk_store (merge_each (\<lambda>j n. ''2026-11-03T10:00:00.000Z'') 0
      [JObj [(''id'', JStr ''a''), (''createdAt'', JStr ''2026-11-01T08:00:00.000Z''),
             (''updatedAt'', JStr ''2026-11-01T08:00:00.000Z'')],
       JObj [(''id'', JStr ''c''), (''createdAt'', JStr ''2026-11-02T08:00:00.000Z''),
             (''updatedAt'', JStr ''2026-11-02T08:00:00.000Z'')]]
      \<lparr>global_map =
         [(''a'', JObj [(''id'', JStr ''a''), (''createdAt'', JStr ''2026-11-01T08:00:00.000Z''),
                        (''updatedAt'', JStr ''2026-11-01T08:00:00.000Z'')]),
          (''c'', JObj [(''id'', JStr ''c''), (''createdAt'', JStr ''2026-11-02T08:00:00.000Z''),
                        (''updatedAt'', JStr ''2026-11-02T08:00:00.000Z'')])],
       desk_store = [], suppress_on = False, pushTimer = None, lower_queued = 0,
       pushes_started = 0, posted = []\<rparr>)) ''pending''
     = JArr [JObj [(''id'', JStr ''c''), (''createdAt'', JStr ''2026-11-02T08:00:00.000Z''),
                   (''updatedAt'', JStr ''2026-11-02T08:00:00.000Z'')],
             JObj [(''id'', JStr ''a''), (''createdAt'', JStr ''2026-11-01T08:00:00.000Z''),
                   (''updatedAt'', JStr ''2026-11-01T08:00:00.000Z'')]]"
  by code_simp

subsection \<open>The trip API\<close>

lemma dropWhile_self: "xs = [] \<or> \<not> P (hd xs) \<Longrightarrow> dropWhile P xs = xs"
  by (cases xs) auto

lemma hd_dropWhile_not: "dropWhile P xs = [] \<or> \<not> P (hd (dropWhile P xs))"
  by (induction xs) auto

lemma drop_trailing_prefix:
  "\<exists>zs. xs = rev (dropWhile P (rev xs)) @ zs"
proof -
  have "rev xs = takeWhile P (rev xs) @ dropWhile P (rev xs)" by simp
  then have "xs = rev (takeWhile P (rev xs) @ dropWhile P (rev xs))"
    by (metis rev_rev_ident)
  then show ?thesis by (metis rev_append)
qed

lemma js_trim_idem: "js_trim (js_trim s) = js_trim s"
proof -
  let ?t = "dropWhile is_ws s"
  let ?u = "rev (dropWhile is_ws (rev ?t))"
  have u: "js_trim s = ?u" by (simp add: js_trim_def)
  obtain zs where zs: "?t = ?u @ zs" using drop_trailing_prefix [of ?t is_ws] by blast
  have "?u = [] \<or> \<not> is_ws (hd ?u)"
  proof (cases "?u = []")
    case True
    then show ?thesis by simp
  next
    case False
    then have "hd ?u = hd ?t" using zs by (metis hd_append2)
    moreover have "?t \<noteq> []" using False zs by (metis append_is_Nil_conv)
    ultimately show ?thesis using hd_dropWhile_not [of is_ws s] by metis
  qed
  then have front: "dropWhile is_ws ?u = ?u" by (rule dropWhile_self)
  have rear: "dropWhile is_ws (rev ?u) = rev ?u" by simp
  have "js_trim ?u = rev (dropWhile is_ws (rev (dropWhile is_ws ?u)))"
    by (simp only: js_trim_def)
  also have "\<dots> = rev (dropWhile is_ws (rev ?u))" by (simp only: front)
  also have "\<dots> = rev (rev ?u)" by (simp only: rear)
  also have "\<dots> = ?u" by (simp only: rev_rev_ident)
  finally show ?thesis by (simp only: u)
qed

lemma server_accepts_iff: "(normalizeTrip_server now tr t \<noteq> None) = resolves_id t"
  by (simp add: normalizeTrip_server_def resolves_id_def Let_def)

lemma server_normalize_wrapped:
  assumes "i = js_trim x" and "i \<noteq> []"
  shows "\<exists>m. normalizeTrip_server now tr (JObj (obj_assign [] (props @ [(''id'', JStr i)]))) = Some m
             \<and> js_get m ''id'' = JStr i \<and> js_get m ''updatedAt'' = JStr now
             \<and> js_get m ''createdAt'' =
                  js_or (js_or (js_get (js_or (obj_get tr i) (JObj [])) ''createdAt'')
                               (obj_get props ''createdAt'')) (JStr now)"
proof -
  let ?t = "JObj (obj_assign [] (props @ [(''id'', JStr i)]))"
  have gid: "js_get ?t ''id'' = JStr i"
    by (simp add: obj_get_copy obj_get_append)
  have gc: "js_get ?t ''createdAt'' = obj_get props ''createdAt''"
    by (simp add: obj_get_copy obj_get_append)
  have "js_trim (js_String (js_or (JStr i) (JStr []))) = i"
    using assms by (simp add: js_or_def js_trim_idem)
  then have tid: "js_trim (js_String (js_or (js_get ?t ''id'') (JStr []))) = i"
    by (simp only: gid)
  have "resolves_id ?t"
    unfolding resolves_id_def tid by (rule assms(2))
  then have "normalizeTrip_server now tr ?t \<noteq> None"
    by (simp only: server_accepts_iff)
  then obtain m where m: "normalizeTrip_server now tr ?t = Some m" by blast
  show ?thesis
    using server_fields [OF m] m unfolding tid gc by simp
qed


lemma post_trip_accepted:
  assumes "i = js_trim (js_String (js_or (js_get (js_or body (JObj [])) ''id'') (JStr uuid)))"
    and "i \<noteq> []"
  shows "\<exists>m. normalizeTrip_server now (trips s)
               (JObj (obj_assign [] (own_props (js_or body (JObj [])) @ [(''id'', JStr i)]))) = Some m
          \<and> js_get m ''id'' = JStr i \<and> js_get m ''updatedAt'' = JStr now
          \<and> js_get m ''createdAt'' =
                  js_or (js_or (js_get (js_or (obj_get (trips s) i) (JObj [])) ''createdAt'')
                               (obj_get (own_props (js_or body (JObj []))) ''createdAt'')) (JStr now)
          \<and> post_trip fs_ok now uuid body s =
              ([if fs_ok then DiskWrite (store_json (s\<lparr>trips := obj_set (trips s) i m\<rparr>))
                else LogWriteFailed,
                Emit (if truthy (obj_get (trips s) i) then ''trip:updated'' else ''trip:created'') m,
                Respond 200 m],
               s\<lparr>trips := obj_set (trips s) i m,
                  disk := (if fs_ok then store_json (s\<lparr>trips := obj_set (trips s) i m\<rparr>)
                           else disk s)\<rparr>)"
proof -
  obtain m where m: "normalizeTrip_server now (trips s)
               (JObj (obj_assign [] (own_props (js_or body (JObj [])) @ [(''id'', JStr i)]))) = Some m"
    and rest: "js_get m ''id'' = JStr i" "js_get m ''updatedAt'' = JStr now"
      "js_get m ''createdAt'' =
                  js_or (js_or (js_get (js_or (obj_get (trips s) i) (JObj [])) ''createdAt'')
                               (obj_get (own_props (js_or body (JObj []))) ''createdAt'')) (JStr now)"
    using server_normalize_wrapped [OF assms] by blast
  have "post_trip fs_ok now uuid body s =
              ([if fs_ok then DiskWrite (store_json (s\<lparr>trips := obj_set (trips s) i m\<rparr>))
                else LogWriteFailed,
                Emit (if truthy (obj_get (trips s) i) then ''trip:updated'' else ''trip:created'') m,
                Respond 200 m],
               s\<lparr>trips := obj_set (trips s) i m,
                  disk := (if fs_ok then store_json (s\<lparr>trips := obj_set (trips s) i m\<rparr>)
                           else disk s)\<rparr>)"
    using m unfolding post_trip_def assms(1) [symmetric] Let_def
    by (simp add: writeData_def)
  then show ?thesis using m rest by blast
qed


lemma patch_trip_accepted:
  assumes "i = js_trim param" and "i \<noteq> []"
  shows "\<exists>m. normalizeTrip_server now (trips s)
               (JObj (obj_assign [] (own_props (js_or body (JObj [])) @ [(''id'', JStr i)]))) = Some m
          \<and> js_get m ''id'' = JStr i \<and> js_get m ''updatedAt'' = JStr now
          \<and> js_get m ''createdAt'' =
                  js_or (js_or (js_get (js_or (obj_get (trips s) i) (JObj [])) ''createdAt'')
                               (obj_get (own_props (js_or body (JObj []))) ''createdAt'')) (JStr now)
          \<and> patch_trip fs_ok now param body s =
              ([if fs_ok then DiskWrite (store_json (s\<lparr>trips := obj_set (trips s) i m\<rparr>))
                else LogWriteFailed,
                Emit ''trip:updated'' m, Respond 200 m],
               s\<lparr>trips := obj_set (trips s) i m,
                  disk := (if fs_ok then store_json (s\<lparr>trips := obj_set (trips s) i m\<rparr>)
                           else disk s)\<rparr>)"
proof -
  obtain m where m: "normalizeTrip_server now (trips s)
               (JObj (obj_assign [] (own_props (js_or body (JObj [])) @ [(''id'', JStr i)]))) = Some m"
    and rest: "js_get m ''id'' = JStr i" "js_get m ''updatedAt'' = JStr now"
      "js_get m ''createdAt'' =
                  js_or (js_or (js_get (js_or (obj_get (trips s) i) (JObj [])) ''createdAt'')
                               (obj_get (own_props (js_or body (JObj []))) ''createdAt'')) (JStr now)"
    using server_normalize_wrapped [OF assms] by blast
  have i: "js_trim (js_String (js_or (JStr param) (JStr []))) = i"
    using assms(1) by (simp add: js_or_def js_trim_Nil)
  have "patch_trip fs_ok now param body s =
              ([if fs_ok then DiskWrite (store_json (s\<lparr>trips := obj_set (trips s) i m\<rparr>))
                else LogWriteFailed,
                Emit ''trip:updated'' m, Respond 200 m],
               s\<lparr>trips := obj_set (trips s) i m,
                  disk := (if fs_ok then store_json (s\<lparr>trips := obj_set (trips s) i m\<rparr>)
                           else disk s)\<rparr>)"
    using m assms(2) unfolding patch_trip_def i Let_def
    by (simp add: writeData_def)
  then show ?thesis using m rest by blast
qed


lemma bulk_loop_results:
  "bulk_loop clock n ts (tr, u, ch) = (tr', u', ch') \<Longrightarrow>
     map snd ch' = map snd ch @ accepted_results clock n ts tr
     \<and> u' = u + length (accepted_results clock n ts tr)"
proof (induction ts arbitrary: n tr u ch)
  case Nil
  then show ?case by simp
next
  case (Cons t ts)
  let ?i = "js_trim (js_String (js_or (js_get t ''id'') (JStr [])))"
  show ?case
  proof (cases "normalizeTrip_server (clock n) tr t")
    case None
    then have "bulk_loop clock n (t # ts) (tr, u, ch) = bulk_loop clock (Suc n) ts (tr, u, ch)"
      by (simp add: Let_def)
    then show ?thesis using Cons None by simp
  next
    case (Some m)
    then have i: "?i \<noteq> []" using server_accepts_iff [of "clock n" tr t]
      by (simp add: resolves_id_def)
    have mid: "js_String (js_get m ''id'') = ?i"
      using server_fields(2) [OF Some] by simp
    have "bulk_loop clock n (t # ts) (tr, u, ch)
            = bulk_loop clock (Suc n) ts (obj_set tr ?i m, u + 1, ch @ [(truthy (obj_get tr ?i), m)])"
      using Some i by (simp add: Let_def)
    then show ?thesis
      using Cons.IH [of "Suc n" "obj_set tr ?i m" "u + 1" "ch @ [(truthy (obj_get tr ?i), m)]"]
        Cons.prems Some mid by simp
  qed
qed

lemma accepted_length:
  "length (accepted_results clock n ts tr) = length (filter resolves_id ts)"
proof (induction ts arbitrary: n tr)
  case Nil
  show ?case by simp
next
  case (Cons t ts)
  show ?case
    using Cons.IH server_accepts_iff [of "clock n" tr t]
    by (cases "normalizeTrip_server (clock n) tr t") auto
qed

lemma accepted_ids:
  "map (\<lambda>r. js_get r ''id'') (accepted_results clock n ts tr)
     = map (\<lambda>t. JStr (js_trim (js_String (js_get t ''id'')))) (filter resolves_id ts)"
proof (induction ts arbitrary: n tr)
  case Nil
  show ?case by simp
next
  case (Cons t ts)
  show ?case
  proof (cases "normalizeTrip_server (clock n) tr t")
    case None
    then show ?thesis using Cons.IH server_accepts_iff [of "clock n" tr t] by simp
  next
    case (Some m)
    then have r: "resolves_id t" using server_accepts_iff [of "clock n" tr t] by simp
    then have "truthy (js_get t ''id'')"
      by (auto simp: resolves_id_def js_or_def js_trim_Nil split: if_splits)
    then have "js_get m ''id'' = JStr (js_trim (js_String (js_get t ''id'')))"
      using server_fields(2) [OF Some] by (simp add: js_or_def)
    then show ?thesis using Cons.IH Some r by simp
  qed
qed



lemma post_bulk_empty:
  assumes "\<not> is_array (js_get body ''trips'') \<or> arr_items (js_get body ''trips'') = []"
  shows "post_bulk fs_ok clock body s
           = ([Respond 200 (JObj [(''ok'', JBool True), (''upserted'', JNum 0)])], s)"
  using assms by (auto simp: post_bulk_def Let_def)

lemma post_bulk_nonempty:
  assumes "js_get body ''trips'' = JArr ts" and "ts \<noteq> []"
  shows "\<exists>tr'. post_bulk fs_ok clock body s =
           ([if fs_ok then DiskWrite (store_json (s\<lparr>trips := tr'\<rparr>)) else LogWriteFailed,
             Emit ''trip:bulk'' (JArr (accepted_results clock 0 ts (trips s))),
             Respond 200 (JObj [(''ok'', JBool True),
                (''upserted'', JNum (int (length (accepted_results clock 0 ts (trips s)))))])],
            s\<lparr>trips := tr',
               disk := (if fs_ok then store_json (s\<lparr>trips := tr'\<rparr>) else disk s)\<rparr>)"
proof -
  obtain tr' u' ch' where l: "bulk_loop clock 0 ts (trips s, 0, []) = (tr', u', ch')"
    by (cases "bulk_loop clock 0 ts (trips s, 0, [])") auto
  have r: "map snd ch' = accepted_results clock 0 ts (trips s)"
    "u' = length (accepted_results clock 0 ts (trips s))"
    using bulk_loop_results [OF l] by simp_all
  show ?thesis
    using assms by (auto simp: post_bulk_def Let_def l r writeData_def)
qed


lemma server_result_obj:
  assumes "normalizeTrip_server now tr t = Some m"
  shows "\<exists>kvs. m = JObj kvs"
  using assms by (auto simp: normalizeTrip_server_def Let_def split: if_splits)

lemma server_keeps_createdAt:
  assumes "normalizeTrip_server now tr t = Some m" and "js_get m ''id'' = JStr i"
    and "truthy (js_get (obj_get tr i) ''createdAt'')"
  shows "js_get m ''createdAt'' = js_get (obj_get tr i) ''createdAt''"
proof -
  have i: "js_trim (js_String (js_or (js_get t ''id'') (JStr []))) = i"
    using server_fields(2) [OF assms(1)] assms(2) by simp
  have "obj_get tr i \<noteq> JUndef \<and> obj_get tr i \<noteq> JNull"
    using assms(3) by auto
  have p: "js_get (js_or (obj_get tr i) (JObj [])) ''createdAt'' = js_get (obj_get tr i) ''createdAt''"
    using assms(3) by (cases "obj_get tr i") (simp_all add: js_or_def)
  show ?thesis
    using server_fields(3) [OF assms(1)] assms(3) unfolding i p by (simp add: js_or_def)
qed








text \<open>
  Claim C7, as amended. A bulk upsert whose \<^verbatim>\<open>trips\<close> is missing, not an array or empty
  answers \<^verbatim>\<open>{ok: true, upserted: 0}\<close> and writes and emits nothing. Otherwise the entries
  whose id does not resolve are skipped, the answer is \<^verbatim>\<open>{ok: true, upserted: n}\<close> with
  \<open>n\<close> the number of entries whose id resolves, and exactly one event is emitted,
  \<^verbatim>\<open>trip:bulk\<close>, carrying the normalized records of exactly those entries, in order, under
  their trimmed ids.
\<close>

theorem post_bulk_response_and_event:
  "(js_get body ''trips'' = JArr ts \<and> ts \<noteq> [] \<longrightarrow>
      fst (post_bulk fs_ok clock body s)
        = [if fs_ok then DiskWrite (store_json (snd (post_bulk fs_ok clock body s)))
           else LogWriteFailed,
           Emit ''trip:bulk'' (JArr (accepted_results clock 0 ts (trips s))),
           Respond 200 (JObj [(''ok'', JBool True),
                              (''upserted'', JNum (int (length (filter resolves_id ts))))])]
      \<and> length (accepted_results clock 0 ts (trips s)) = length (filter resolves_id ts)
      \<and> map (\<lambda>r. js_get r ''id'') (accepted_results clock 0 ts (trips s))
          = map (\<lambda>t. JStr (js_trim (js_String (js_get t ''id'')))) (filter resolves_id ts))
   \<and> (\<not> is_array (js_get body ''trips'') \<or> js_get body ''trips'' = JArr [] \<longrightarrow>
      post_bulk fs_ok clock body s
        = ([Respond 200 (JObj [(''ok'', JBool True), (''upserted'', JNum 0)])], s))"
proof (intro conjI impI)
  assume a: "js_get body ''trips'' = JArr ts \<and> ts \<noteq> []"
  obtain tr' where p: "post_bulk fs_ok clock body s =
           ([if fs_ok then DiskWrite (store_json (s\<lparr>trips := tr'\<rparr>)) else LogWriteFailed,
             Emit ''trip:bulk'' (JArr (accepted_results clock 0 ts (trips s))),
             Respond 200 (JObj [(''ok'', JBool True),
                (''upserted'', JNum (int (length (accepted_results clock 0 ts (trips s)))))])],
            s\<lparr>trips := tr',
               disk := (if fs_ok then store_json (s\<lparr>trips := tr'\<rparr>) else disk s)\<rparr>)"
    using post_bulk_nonempty [of body ts fs_ok clock s] a by blast
  show "fst (post_bulk fs_ok clock body s)
        = [if fs_ok then DiskWrite (store_json (snd (post_bulk fs_ok clock body s)))
           else LogWriteFailed,
           Emit ''trip:bulk'' (JArr (accepted_results clock 0 ts (trips s))),
           Respond 200 (JObj [(''ok'', JBool True),
                              (''upserted'', JNum (int (length (filter resolves_id ts))))])]"
    unfolding p by (simp add: accepted_length store_json_def)
next
  show "length (accepted_results clock 0 ts (trips s)) = length (filter resolves_id ts)"
    by (rule accepted_length)
next
  show "map (\<lambda>r. js_get r ''id'') (accepted_results clock 0 ts (trips s))
          = map (\<lambda>t. JStr (js_trim (js_String (js_get t ''id'')))) (filter resolves_id ts)"
    by (rule accepted_ids)
next
  assume "\<not> is_array (js_get body ''trips'') \<or> js_get body ''trips'' = JArr []"
  then have "\<not> is_array (js_get body ''trips'') \<or> arr_items (js_get body ''trips'') = []"
    by auto
  then show "post_bulk fs_ok clock body s
        = ([Respond 200 (JObj [(''ok'', JBool True), (''upserted'', JNum 0)])], s)"
    by (rule post_bulk_empty)
qed

text \<open>
  The amended C7 at the request of the specification: two entries with ids and one
  without.
\<close>

theorem post_bulk_response_and_event_witness:
  "fst (post_bulk True (\<lambda>n. ''2026-11-03T10:00:00.000Z'')
     (JObj [(''trips'', JArr [JObj [(''id'', JStr ''a'')], JObj [(''id'', JStr ''b'')],
                              JObj [(''status'', JStr ''Pending'')]])])
     \<lparr>trips = [], users = [], disk = JNull\<rparr>)
   = [DiskWrite (JObj [(''trips'', JObj
        [(''a'', JObj [(''id'', JStr ''a''), (''createdAt'', JStr ''2026-11-03T10:00:00.000Z''),
                       (''updatedAt'', JStr ''2026-11-03T10:00:00.000Z'')]),
         (''b'', JObj [(''id'', JStr ''b''), (''createdAt'', JStr ''2026-11-03T10:00:00.000Z''),
                       (''updatedAt'', JStr ''2026-11-03T10:00:00.000Z'')])]),
        (''users'', JObj [])]),
      Emit ''trip:bulk'' (JArr
        [JObj [(''id'', JStr ''a''), (''createdAt'', JStr ''2026-11-03T10:00:00.000Z''),
               (''updatedAt'', JStr ''2026-11-03T10:00:00.000Z'')],
         JObj [(''id'', JStr ''b''), (''createdAt'', JStr ''2026-11-03T10:00:00.000Z''),
               (''updatedAt'', JStr ''2026-11-03T10:00:00.000Z'')]]),
      Respond 200 (JObj [(''ok'', JBool True), (''upserted'', JNum 2)])]
   \<and> post_bulk True (\<lambda>n. ''2026-11-03T10:00:00.000Z'') (JObj [(''trips'', JStr ''none'')])
       \<lparr>trips = [], users = [], disk = JNull\<rparr>
     = ([Respond 200 (JObj [(''ok'', JBool True), (''upserted'', JNum 0)])],
        \<lparr>trips = [], users = [], disk = JNull\<rparr>)"
proof -
  let ?ts = "[JObj [(''id'', JStr ''a'')], JObj [(''id'', JStr ''b'')],
              JObj [(''status'', JStr ''Pending'')]]"
  let ?body = "JObj [(''trips'', JArr ?ts)]"
  let ?clock = "\<lambda>n::nat. ''2026-11-03T10:00:00.000Z''"
  let ?s = "\<lparr>trips = [], users = [], disk = JNull\<rparr>"
  have a: "js_get ?body ''trips'' = JArr ?ts \<and> ?ts \<noteq> []"
    by simp
  have n: "int (length (filter resolves_id ?ts)) = 2"
    by code_simp
  have r: "accepted_results ?clock 0 ?ts (trips ?s)
     = [JObj [(''id'', JStr ''a''), (''createdAt'', JStr ''2026-11-03T10:00:00.000Z''),
               (''updatedAt'', JStr ''2026-11-03T10:00:00.000Z'')],
         JObj [(''id'', JStr ''b''), (''createdAt'', JStr ''2026-11-03T10:00:00.000Z''),
               (''updatedAt'', JStr ''2026-11-03T10:00:00.000Z'')]]"
    by code_simp
  have d: "store_json (snd (post_bulk True ?clock ?body ?s))
     = JObj [(''trips'', JObj
        [(''a'', JObj [(''id'', JStr ''a''), (''createdAt'', JStr ''2026-11-03T10:00:00.000Z''),
                       (''updatedAt'', JStr ''2026-11-03T10:00:00.000Z'')]),
         (''b'', JObj [(''id'', JStr ''b''), (''createdAt'', JStr ''2026-11-03T10:00:00.000Z''),
                       (''updatedAt'', JStr ''2026-11-03T10:00:00.000Z'')])]),
        (''users'', JObj [])]"
    by code_simp
  have e: "\<not> is_array (js_get (JObj [(''trips'', JStr ''none'')]) ''trips'')
           \<or> js_get (JObj [(''trips'', JStr ''none'')]) ''trips'' = JArr []"
    by simp
  have 1: "fst (post_bulk True ?clock ?body ?s)
     = [DiskWrite (JObj [(''trips'', JObj
        [(''a'', JObj [(''id'', JStr ''a''), (''createdAt'', JStr ''2026-11-03T10:00:00.000Z''),
                       (''updatedAt'', JStr ''2026-11-03T10:00:00.000Z'')]),
         (''b'', JObj [(''id'', JStr ''b''), (''createdAt'', JStr ''2026-11-03T10:00:00.000Z''),
                       (''updatedAt'', JStr ''2026-11-03T10:00:00.000Z'')])]),
        (''users'', JObj [])]),
      Emit ''trip:bulk'' (JArr
        [JObj [(''id'', JStr ''a''), (''createdAt'', JStr ''2026-11-03T10:00:00.000Z''),
               (''updatedAt'', JStr ''2026-11-03T10:00:00.000Z'')],
         JObj [(''id'', JStr ''b''), (''createdAt'', JStr ''2026-11-03T10:00:00.000Z''),
               (''updatedAt'', JStr ''2026-11-03T10:00:00.000Z'')]]),
      Respond 200 (JObj [(''ok'', JBool True), (''upserted'', JNum 2)])]"
    using post_bulk_response_and_event [of ?body ?ts True ?clock ?s, THEN conjunct1, rule_format, OF a,
        THEN conjunct1]
    unfolding n r d by simp
  have 2: "post_bulk True ?clock (JObj [(''trips'', JStr ''none'')]) ?s
     = ([Respond 200 (JObj [(''ok'', JBool True), (''upserted'', JNum 0)])], ?s)"
    using post_bulk_response_and_event [of "JObj [(''trips'', JStr ''none'')]" "[]" True ?clock ?s,
        THEN conjunct2, rule_format, OF e] .
  show ?thesis using 1 2 by (intro conjI)
qed

text \<open>
  Claim C7 as stated fails for a bulk upsert with an empty array: the handler answers
  \<^verbatim>\<open>upserted: 0\<close> and returns before \<^verbatim>\<open>io.emit\<close>, so no \<^verbatim>\<open>trip:bulk\<close> event goes out.
\<close>

theorem post_bulk_empty_no_event_counterexample:
  "post_bulk True (\<lambda>n. ''2026-11-03T10:00:00.000Z'') (JObj [(''trips'', JArr [])])
     \<lparr>trips = [], users = [], disk = JNull\<rparr>
   = ([Respond 200 (JObj [(''ok'', JBool True), (''upserted'', JNum 0)])],
      \<lparr>trips = [], users = [], disk = JNull\<rparr>)"
  by code_simp

text \<open>
  Claim C8, as amended. On the server a record's \<^verbatim>\<open>createdAt\<close> is fixed by its first
  normalization: the \<^verbatim>\<open>createdAt\<close> of the request body if that is truthy, the clock
  reading otherwise. So a fresh \<^verbatim>\<open>POST /api/trips\<close> whose body carries no truthy
  \<^verbatim>\<open>createdAt\<close> answers with \<^verbatim>\<open>createdAt\<close> equal to \<^verbatim>\<open>updatedAt\<close>, both the clock
  reading of the request. A subsequent \<^verbatim>\<open>PATCH\<close> of that id answers with the same
  \<^verbatim>\<open>createdAt\<close>, whatever the patch carries, and with \<^verbatim>\<open>updatedAt\<close> equal to its own clock
  reading, which is later than the first exactly when the clock has advanced. No later
  normalization of that id changes \<^verbatim>\<open>createdAt\<close>.
\<close>

theorem createdAt_set_once:
  assumes "\<not> truthy (obj_get (trips s) i)"
    and "i = js_trim (js_String (js_or (obj_get kvs ''id'') (JStr uuid)))" and "i \<noteq> []"
    and "now1 \<noteq> []"
  shows "\<exists>m1 m2 w1 w2 s1 s2.
      post_trip fs1 now1 uuid (JObj kvs) s = ([w1, Emit ''trip:created'' m1, Respond 200 m1], s1)
    \<and> js_get m1 ''updatedAt'' = JStr now1
    \<and> js_get m1 ''createdAt'' = (if truthy (obj_get kvs ''createdAt'') then obj_get kvs ''createdAt''
                                  else JStr now1)
    \<and> patch_trip fs2 now2 i patch s1 = ([w2, Emit ''trip:updated'' m2, Respond 200 m2], s2)
    \<and> js_get m2 ''createdAt'' = js_get m1 ''createdAt''
    \<and> js_get m2 ''updatedAt'' = JStr now2
    \<and> (\<forall>now t m. normalizeTrip_server now (trips s2) t = Some m \<and> js_get m ''id'' = JStr i
           \<longrightarrow> js_get m ''createdAt'' = js_get m1 ''createdAt'')"
proof -
  have body: "js_or (JObj kvs) (JObj []) = JObj kvs" by (simp add: js_or_def)
  have i': "i = js_trim (js_String (js_or (js_get (js_or (JObj kvs) (JObj [])) ''id'') (JStr uuid)))"
    using assms(2) by (simp add: body)
  have prev: "js_or (obj_get (trips s) i) (JObj []) = JObj []"
    using assms(1) by (simp add: js_or_def)
  obtain m1 where n1: "normalizeTrip_server now1 (trips s)
               (JObj (obj_assign [] (own_props (js_or (JObj kvs) (JObj [])) @ [(''id'', JStr i)]))) = Some m1"
    and id1: "js_get m1 ''id'' = JStr i" and u1: "js_get m1 ''updatedAt'' = JStr now1"
    and c1: "js_get m1 ''createdAt'' =
                  js_or (js_or (js_get (js_or (obj_get (trips s) i) (JObj [])) ''createdAt'')
                               (obj_get (own_props (js_or (JObj kvs) (JObj []))) ''createdAt'')) (JStr now1)"
    and p1: "post_trip fs1 now1 uuid (JObj kvs) s =
              ([if fs1 then DiskWrite (store_json (s\<lparr>trips := obj_set (trips s) i m1\<rparr>))
                else LogWriteFailed,
                Emit (if truthy (obj_get (trips s) i) then ''trip:updated'' else ''trip:created'') m1,
                Respond 200 m1],
               s\<lparr>trips := obj_set (trips s) i m1,
                  disk := (if fs1 then store_json (s\<lparr>trips := obj_set (trips s) i m1\<rparr>)
                           else disk s)\<rparr>)"
    using post_trip_accepted [OF i' assms(3), of now1 s fs1] by blast
  let ?s1 = "s\<lparr>trips := obj_set (trips s) i m1,
                  disk := (if fs1 then store_json (s\<lparr>trips := obj_set (trips s) i m1\<rparr>)
                           else disk s)\<rparr>"
  have c1': "js_get m1 ''createdAt'' = (if truthy (obj_get kvs ''createdAt'') then obj_get kvs ''createdAt''
                                  else JStr now1)"
    using c1 unfolding prev body by (simp add: js_or_def)
  have tc1: "truthy (js_get m1 ''createdAt'')"
    using c1' assms(4) by simp
  have st1: "obj_get (trips ?s1) i = m1" by (simp add: obj_get_set)
  have ti: "i = js_trim i" using assms(2) by (simp add: js_trim_idem)
  obtain m2 where n2: "normalizeTrip_server now2 (trips ?s1)
               (JObj (obj_assign [] (own_props (js_or patch (JObj [])) @ [(''id'', JStr i)]))) = Some m2"
    and id2: "js_get m2 ''id'' = JStr i" and u2: "js_get m2 ''updatedAt'' = JStr now2"
    and p2: "patch_trip fs2 now2 i patch ?s1 =
              ([if fs2 then DiskWrite (store_json (?s1\<lparr>trips := obj_set (trips ?s1) i m2\<rparr>))
                else LogWriteFailed,
                Emit ''trip:updated'' m2, Respond 200 m2],
               ?s1\<lparr>trips := obj_set (trips ?s1) i m2,
                  disk := (if fs2 then store_json (?s1\<lparr>trips := obj_set (trips ?s1) i m2\<rparr>)
                           else disk ?s1)\<rparr>)"
    using patch_trip_accepted [OF ti assms(3), of now2 ?s1 patch fs2] by blast
  let ?s2 = "?s1\<lparr>trips := obj_set (trips ?s1) i m2,
                  disk := (if fs2 then store_json (?s1\<lparr>trips := obj_set (trips ?s1) i m2\<rparr>)
                           else disk ?s1)\<rparr>"
  have c2: "js_get m2 ''createdAt'' = js_get m1 ''createdAt''"
    using server_keeps_createdAt [OF n2 id2] tc1 unfolding st1 by simp
  have st2: "obj_get (trips ?s2) i = m2" by (simp add: obj_get_set)
  have later: "\<forall>now t m. normalizeTrip_server now (trips ?s2) t = Some m \<and> js_get m ''id'' = JStr i
           \<longrightarrow> js_get m ''createdAt'' = js_get m1 ''createdAt''"
  proof (intro allI impI)
    fix now t m
    assume a: "normalizeTrip_server now (trips ?s2) t = Some m \<and> js_get m ''id'' = JStr i"
    have "truthy (js_get (obj_get (trips ?s2) i) ''createdAt'')"
      unfolding st2 c2 by (rule tc1)
    then have "js_get m ''createdAt'' = js_get (obj_get (trips ?s2) i) ''createdAt''"
      using server_keeps_createdAt a by blast
    then show "js_get m ''createdAt'' = js_get m1 ''createdAt''"
      unfolding st2 c2 .
  qed
  have e1: "post_trip fs1 now1 uuid (JObj kvs) s =
      ([if fs1 then DiskWrite (store_json (s\<lparr>trips := obj_set (trips s) i m1\<rparr>)) else LogWriteFailed,
        Emit ''trip:created'' m1, Respond 200 m1], ?s1)"
    using p1 assms(1) by simp
  show ?thesis
    using e1 u1 c1' p2 c2 u2 later by blast
qed

text \<open>
  The amended C8 at the requests of the specification: \<^verbatim>\<open>POST {id: "t1", status:
  "Pending"}\<close> on an empty store, then \<^verbatim>\<open>PATCH t1 {status: "Approved"}\<close> a second later.
\<close>

theorem createdAt_set_once_witness:
  "\<exists>m1 m2 w1 w2 s1 s2.
      post_trip True ''2026-11-03T10:00:00.000Z'' ''u-1''
        (JObj [(''id'', JStr ''t1''), (''status'', JStr ''Pending'')])
        \<lparr>trips = [], users = [], disk = JNull\<rparr>
        = ([w1, Emit ''trip:created'' m1, Respond 200 m1], s1)
    \<and> patch_trip True ''2026-11-03T10:00:01.000Z'' ''t1''
        (JObj [(''status'', JStr ''Approved'')]) s1
        = ([w2, Emit ''trip:updated'' m2, Respond 200 m2], s2)
    \<and> js_get m1 ''createdAt'' = JStr ''2026-11-03T10:00:00.000Z''
    \<and> js_get m1 ''updatedAt'' = JStr ''2026-11-03T10:00:00.000Z''
    \<and> js_get m2 ''createdAt'' = JStr ''2026-11-03T10:00:00.000Z''
    \<and> js_get m2 ''updatedAt'' = JStr ''2026-11-03T10:00:01.000Z''"
proof -
  let ?kvs = "[(''id'', JStr ''t1''), (''status'', JStr ''Pending'')]"
  let ?s = "\<lparr>trips = [], users = [], disk = JNull\<rparr>"
  have 1: "\<not> truthy (obj_get (trips ?s) ''t1'')" by simp
  have 2: "''t1'' = js_trim (js_String (js_or (obj_get ?kvs ''id'') (JStr ''u-1'')))"
    by code_simp
  have 3: "''t1'' \<noteq> []" by simp
  have 4: "''2026-11-03T10:00:00.000Z'' \<noteq> []" by simp
  have c: "\<not> truthy (obj_get ?kvs ''createdAt'')" by simp
  obtain m1 m2 w1 w2 s1 s2 where
    "post_trip True ''2026-11-03T10:00:00.000Z'' ''u-1'' (JObj ?kvs) ?s
        = ([w1, Emit ''trip:created'' m1, Respond 200 m1], s1)"
    "js_get m1 ''updatedAt'' = JStr ''2026-11-03T10:00:00.000Z''"
    "js_get m1 ''createdAt'' = (if truthy (obj_get ?kvs ''createdAt'') then obj_get ?kvs ''createdAt''
                                  else JStr ''2026-11-03T10:00:00.000Z'')"
    "patch_trip True ''2026-11-03T10:00:01.000Z'' ''t1'' (JObj [(''status'', JStr ''Approved'')]) s1
        = ([w2, Emit ''trip:updated'' m2, Respond 200 m2], s2)"
    "js_get m2 ''createdAt'' = js_get m1 ''createdAt''"
    "js_get m2 ''updatedAt'' = JStr ''2026-11-03T10:00:01.000Z''"
    using createdAt_set_once [OF 1 2 3 4, of True True "''2026-11-03T10:00:01.000Z''"
        "JObj [(''status'', JStr ''Approved'')]"]
    by blast
  then show ?thesis
    using c by (intro exI [of _ m1] exI [of _ m2] exI [of _ w1] exI [of _ w2]
                  exI [of _ s1] exI [of _ s2]) simp
qed

text \<open>
  Claim C8 as stated fails for a fresh create whose body carries its own
  \<^verbatim>\<open>createdAt\<close>, as the records a page created offline do: the answer keeps that
  \<^verbatim>\<open>createdAt\<close> and stamps \<^verbatim>\<open>updatedAt\<close> with the clock, so the two differ.
\<close>

theorem post_trip_body_createdAt_counterexample:
  "fst (post_trip True ''2026-11-03T10:00:00.000Z'' ''u-1''
     (JObj [(''id'', JStr ''t1''), (''createdAt'', JStr ''2026-11-01T08:00:00.000Z'')])
     \<lparr>trips = [], users = [], disk = JNull\<rparr>)
   = [DiskWrite (JObj [(''trips'', JObj [(''t1'',
          JObj [(''id'', JStr ''t1''), (''createdAt'', JStr ''2026-11-01T08:00:00.000Z''),
                (''updatedAt'', JStr ''2026-11-03T10:00:00.000Z'')])]), (''users'', JObj [])]),
      Emit ''trip:created''
        (JObj [(''id'', JStr ''t1''), (''createdAt'', JStr ''2026-11-01T08:00:00.000Z''),
               (''updatedAt'', JStr ''2026-11-03T10:00:00.000Z'')]),
      Respond 200
        (JObj [(''id'', JStr ''t1''), (''createdAt'', JStr ''2026-11-01T08:00:00.000Z''),
               (''updatedAt'', JStr ''2026-11-03T10:00:00.000Z'')])]"
  by code_simp

subsection \<open>The debounced push\<close>

lemma push_fields:
  "pushes_started (pushAllTripsToServer s) = pushes_started s + 1"
  "pushTimer (pushAllTripsToServer s) = pushTimer s"
  "posted (pushAllTripsToServer s)
     = posted s @ (if push_snapshot s = [] then []
                   else [JObj [(''trips'', JArr (push_snapshot s))]])"
  by (simp_all add: pushAllTripsToServer_def Let_def)

lemma run_due_not_due:
  assumes "settled s" and "pushTimer s = None \<or> (\<exists>d. pushTimer s = Some d \<and> t < d)"
  shows "run_due t s = s"
  using assms by (auto simp: run_due_def settled_def Let_def)

lemma run_due_fires:
  assumes "settled s" and "pushTimer s = Some d" and "d \<le> t"
  shows "settled (run_due t s)" and "pushTimer (run_due t s) = None"
    and "pushes_started (run_due t s) = pushes_started s + 1"
    and "posted (run_due t s)
           = posted s @ (if push_snapshot s = [] then []
                         else [JObj [(''trips'', JArr (push_snapshot s))]])"
  using assms
  by (simp_all add: run_due_def settled_def Let_def push_fields push_snapshot_def mergedById_def)

lemma setItem_schedules:
  assumes "settled s" and "mirror_key key"
  shows "settled (setItem t key v s)" and "pushTimer (setItem t key v s) = Some (t + 400)"
    and "pushes_started (setItem t key v s) = pushes_started s"
    and "posted (setItem t key v s) = posted s"
  using assms by (simp_all add: setItem_def schedulePush_def settled_def Let_def)

lemma coalesced_run:
  assumes "settled s"
    and "pushTimer s = None \<or> (\<exists>d. pushTimer s = Some d \<and> (w_loop_ran w \<longrightarrow> w_time w < d))"
    and "\<forall>x \<in> set (w # ws). mirror_key (w_key x)"
    and "\<forall>p \<in> set (zip (w # ws) ws). w_loop_ran (snd p) \<longrightarrow> w_time (snd p) < w_time (fst p) + 400"
  shows "settled (run_writes (w # ws) s)
         \<and> pushTimer (run_writes (w # ws) s) = Some (w_time (last (w # ws)) + 400)
         \<and> pushes_started (run_writes (w # ws) s) = pushes_started s
         \<and> posted (run_writes (w # ws) s) = posted s"
  using assms
proof (induction ws arbitrary: s w)
  case Nil
  obtain t key v turn where w: "w = PageWrite t key v turn" by (cases w)
  have k: "mirror_key key" using Nil.prems(3) by (simp add: w)
  have d: "(if turn then run_due t s else s) = s"
    using run_due_not_due [OF Nil.prems(1), of t] Nil.prems(2) by (auto simp: w)
  show ?case
    using setItem_schedules [OF Nil.prems(1) k, of t v] by (simp add: w d)
next
  case (Cons w' ws)
  obtain t key v turn where w: "w = PageWrite t key v turn" by (cases w)
  have k: "mirror_key key" using Cons.prems(3) by (simp add: w)
  have d: "(if turn then run_due t s else s) = s"
    using run_due_not_due [OF Cons.prems(1), of t] Cons.prems(2) by (auto simp: w)
  let ?s' = "setItem t key v s"
  have s': "settled ?s'" "pushTimer ?s' = Some (t + 400)"
    "pushes_started ?s' = pushes_started s" "posted ?s' = posted s"
    using setItem_schedules [OF Cons.prems(1) k, of t v] by simp_all
  have next_due: "pushTimer ?s' = None
      \<or> (\<exists>d. pushTimer ?s' = Some d \<and> (w_loop_ran w' \<longrightarrow> w_time w' < d))"
    using s'(2) Cons.prems(4) by (simp add: w)
  have keys: "\<forall>x \<in> set (w' # ws). mirror_key (w_key x)" using Cons.prems(3) by simp
  have q: "\<forall>p \<in> set (zip (w' # ws) ws).
             w_loop_ran (snd p) \<longrightarrow> w_time (snd p) < w_time (fst p) + 400"
    using Cons.prems(4) by simp
  have "run_writes (w # w' # ws) s = run_writes (w' # ws) ?s'"
    by (simp add: w d)
  then show ?case
    using Cons.IH [OF s'(1) next_due keys q] s'(3,4) by simp
qed

lemma within_quiet_pairs:
  "within_quiet (map w_time (w # ws)) \<Longrightarrow>
     \<forall>p \<in> set (zip (w # ws) ws). w_time (snd p) < w_time (fst p) + 400"
proof (induction ws arbitrary: w)
  case Nil
  show ?case by simp
next
  case (Cons w' ws)
  show ?case
    using Cons.IH [of w'] Cons.prems by simp
qed

lemma spaced_run:
  assumes "settled s" and "pushTimer s = Some (t0 + 400)"
    and "\<forall>x \<in> set ws. mirror_key (w_key x)"
    and "beyond_quiet (t0 # map w_time ws)"
    and "\<forall>x \<in> set ws. w_loop_ran x"
  shows "settled (run_writes ws s)
         \<and> pushTimer (run_writes ws s) = Some (last (t0 # map w_time ws) + 400)
         \<and> pushes_started (run_writes ws s) = pushes_started s + length ws"
  using assms
proof (induction ws arbitrary: s t0)
  case Nil
  then show ?case by simp
next
  case (Cons w ws)
  obtain t key v turn where w: "w = PageWrite t key v turn" by (cases w)
  have k: "mirror_key key" using Cons.prems(3) by (simp add: w)
  have turn: "turn" using Cons.prems(5) by (simp add: w)
  have due: "t0 + 400 \<le> t" using Cons.prems(4) by (simp add: w)
  let ?s1 = "run_due t s"
  have s1: "settled ?s1" "pushes_started ?s1 = pushes_started s + 1"
    using run_due_fires [OF Cons.prems(1,2) due] by simp_all
  let ?s' = "setItem t key v ?s1"
  have s': "settled ?s'" "pushTimer ?s' = Some (t + 400)"
    "pushes_started ?s' = pushes_started s + 1"
    using setItem_schedules [OF s1(1) k, of t v] s1(2) by simp_all
  have keys: "\<forall>x \<in> set ws. mirror_key (w_key x)" using Cons.prems(3) by simp
  have q: "beyond_quiet (t # map w_time ws)" using Cons.prems(4) by (simp add: w)
  have rans: "\<forall>x \<in> set ws. w_loop_ran x" using Cons.prems(5) by simp
  show ?case
    using Cons.IH [OF s'(1,2) keys q rans] s'(3) by (simp add: w turn)
qed

text \<open>
  Claim C9, as amended. Start with the flag down and no timer pending, and let a page
  make \<open>N \<ge> 1\<close> writes to mirror keys while no socket event arrives. If each write comes
  within the quiet period of the one before, then, whether or not the event loop has had
  a turn between them, no push runs during the burst, the timer stands at 400 ms after
  the last write, and once that time has come exactly one run of
  \<^verbatim>\<open>pushAllTripsToServer\<close> has taken place; it sends one request to the server if the
  snapshot merged from the two stores holds a record, and none if the snapshot is empty.
  If each write comes beyond the quiet period of the one before and the event loop has
  had its turn before every write after the first (the timer of the write before has
  run, and the zero-delay callback of that run has lowered the flag), \<open>N\<close> runs have
  taken place. If the event loop has had no turn before any write after the first, as
  when one task of the page makes all the writes, each write cancels the timer of the one
  before, overdue or not, and one run has taken place however far apart the writes are.
\<close>

theorem debounce_runs:
  assumes "settled s" and "pushTimer s = None" and "ws \<noteq> []"
    and "\<forall>x \<in> set ws. mirror_key (w_key x)" and "w_time (last ws) + 400 \<le> T"
  shows "(within_quiet (map w_time ws) \<longrightarrow>
            pushTimer (run_writes ws s) = Some (w_time (last ws) + 400)
            \<and> pushes_started (run_writes ws s) = pushes_started s
            \<and> pushes_started (run_due T (run_writes ws s)) = pushes_started s + 1
            \<and> posted (run_due T (run_writes ws s))
                = posted s @ (if push_snapshot (run_writes ws s) = [] then []
                              else [JObj [(''trips'', JArr (push_snapshot (run_writes ws s)))]]))
         \<and> (beyond_quiet (map w_time ws) \<and> (\<forall>x \<in> set (tl ws). w_loop_ran x) \<longrightarrow>
            pushes_started (run_due T (run_writes ws s)) = pushes_started s + length ws)
         \<and> ((\<forall>x \<in> set (tl ws). \<not> w_loop_ran x) \<longrightarrow>
            pushTimer (run_writes ws s) = Some (w_time (last ws) + 400)
            \<and> pushes_started (run_due T (run_writes ws s)) = pushes_started s + 1)"
proof -
  obtain w rest where ws: "ws = w # rest" using assms(3) by (cases ws) auto
  obtain t key v turn where w: "w = PageWrite t key v turn" by (cases w)
  have first: "pushTimer s = None \<or> (\<exists>d. pushTimer s = Some d \<and> (w_loop_ran w \<longrightarrow> w_time w < d))"
    using assms(2) by simp
  have keys: "\<forall>x \<in> set (w # rest). mirror_key (w_key x)"
    using assms(4) by (simp add: ws)
  have one: "pushTimer (run_writes ws s) = Some (w_time (last ws) + 400)
            \<and> pushes_started (run_writes ws s) = pushes_started s
            \<and> pushes_started (run_due T (run_writes ws s)) = pushes_started s + 1
            \<and> posted (run_due T (run_writes ws s))
                = posted s @ (if push_snapshot (run_writes ws s) = [] then []
                              else [JObj [(''trips'', JArr (push_snapshot (run_writes ws s)))]])"
    if c: "\<forall>p \<in> set (zip (w # rest) rest).
             w_loop_ran (snd p) \<longrightarrow> w_time (snd p) < w_time (fst p) + 400"
  proof -
    have b: "settled (run_writes ws s)
         \<and> pushTimer (run_writes ws s) = Some (w_time (last ws) + 400)
         \<and> pushes_started (run_writes ws s) = pushes_started s
         \<and> posted (run_writes ws s) = posted s"
      unfolding ws by (rule coalesced_run [OF assms(1) first keys c])
    note f = run_due_fires [OF conjunct1 [OF b] conjunct1 [OF conjunct2 [OF b]] assms(5)]
    show ?thesis using b f(3,4) by simp
  qed
  have burst: "within_quiet (map w_time ws) \<longrightarrow>
            pushTimer (run_writes ws s) = Some (w_time (last ws) + 400)
            \<and> pushes_started (run_writes ws s) = pushes_started s
            \<and> pushes_started (run_due T (run_writes ws s)) = pushes_started s + 1
            \<and> posted (run_due T (run_writes ws s))
                = posted s @ (if push_snapshot (run_writes ws s) = [] then []
                              else [JObj [(''trips'', JArr (push_snapshot (run_writes ws s)))]])"
  proof
    assume "within_quiet (map w_time ws)"
    then have "\<forall>p \<in> set (zip (w # rest) rest). w_time (snd p) < w_time (fst p) + 400"
      unfolding ws by (rule within_quiet_pairs)
    then have "\<forall>p \<in> set (zip (w # rest) rest).
             w_loop_ran (snd p) \<longrightarrow> w_time (snd p) < w_time (fst p) + 400"
      by simp
    then show "pushTimer (run_writes ws s) = Some (w_time (last ws) + 400)
            \<and> pushes_started (run_writes ws s) = pushes_started s
            \<and> pushes_started (run_due T (run_writes ws s)) = pushes_started s + 1
            \<and> posted (run_due T (run_writes ws s))
                = posted s @ (if push_snapshot (run_writes ws s) = [] then []
                              else [JObj [(''trips'', JArr (push_snapshot (run_writes ws s)))]])"
      by (rule one)
  qed
  have same_task: "(\<forall>x \<in> set (tl ws). \<not> w_loop_ran x) \<longrightarrow>
            pushTimer (run_writes ws s) = Some (w_time (last ws) + 400)
            \<and> pushes_started (run_due T (run_writes ws s)) = pushes_started s + 1"
  proof
    assume a: "\<forall>x \<in> set (tl ws). \<not> w_loop_ran x"
    have "\<forall>p \<in> set (zip (w # rest) rest).
             w_loop_ran (snd p) \<longrightarrow> w_time (snd p) < w_time (fst p) + 400"
    proof
      fix p assume "p \<in> set (zip (w # rest) rest)"
      then have "(fst p, snd p) \<in> set (zip (w # rest) rest)" by simp
      then have "snd p \<in> set rest" by (rule set_zip_rightD)
      then show "w_loop_ran (snd p) \<longrightarrow> w_time (snd p) < w_time (fst p) + 400"
        using a by (simp add: ws)
    qed
    then show "pushTimer (run_writes ws s) = Some (w_time (last ws) + 400)
            \<and> pushes_started (run_due T (run_writes ws s)) = pushes_started s + 1"
      using one by simp
  qed
  have spaced: "beyond_quiet (map w_time ws) \<and> (\<forall>x \<in> set (tl ws). w_loop_ran x) \<longrightarrow>
            pushes_started (run_due T (run_writes ws s)) = pushes_started s + length ws"
  proof
    assume a: "beyond_quiet (map w_time ws) \<and> (\<forall>x \<in> set (tl ws). w_loop_ran x)"
    have k: "mirror_key key" using assms(4) by (simp add: ws w)
    have d: "(if turn then run_due t s else s) = s"
      using run_due_not_due [OF assms(1), of t] assms(2) by simp
    let ?s' = "setItem t key v s"
    have s': "settled ?s'" "pushTimer ?s' = Some (t + 400)"
      "pushes_started ?s' = pushes_started s"
      using setItem_schedules [OF assms(1) k, of t v] by simp_all
    have keys': "\<forall>x \<in> set rest. mirror_key (w_key x)" using assms(4) by (simp add: ws)
    have q': "beyond_quiet (t # map w_time rest)" using a by (simp add: ws w)
    have rans: "\<forall>x \<in> set rest. w_loop_ran x" using a by (simp add: ws)
    have r: "settled (run_writes rest ?s')
         \<and> pushTimer (run_writes rest ?s') = Some (last (t # map w_time rest) + 400)
         \<and> pushes_started (run_writes rest ?s') = pushes_started ?s' + length rest"
      by (rule spaced_run [OF s'(1,2) keys' q' rans])
    have e: "run_writes ws s = run_writes rest ?s'" by (simp add: ws w d)
    have l: "last (t # map w_time rest) = w_time (last ws)"
      using last_map [of ws w_time] by (simp add: ws w)
    have due: "last (t # map w_time rest) + 400 \<le> T" using assms(5) l by simp
    note f = run_due_fires [OF conjunct1 [OF r] conjunct1 [OF conjunct2 [OF r]] due]
    show "pushes_started (run_due T (run_writes ws s)) = pushes_started s + length ws"
      using f(3) r s'(3) unfolding e by (simp add: ws)
  qed
  show ?thesis using burst spaced same_task by blast
qed

text \<open>
  The amended C9 at three writes of a record to \<^verbatim>\<open>etg-trips-global\<close>: at 0, 100 and
  350 ms they make one run, which posts the record; at 0, 500 and 1000 ms they make three
  when the event loop has its turn before each, and one when it has none.
\<close>

theorem debounce_runs_witness:
  "pushes_started (run_due 750 (run_writes
      [PageWrite 0 ''etg-trips-global'' [(''t1'', JObj [(''id'', JStr ''t1'')])] True,
       PageWrite 100 ''etg-trips-global'' [(''t1'', JObj [(''id'', JStr ''t1'')])] True,
       PageWrite 350 ''etg-trips-global'' [(''t1'', JObj [(''id'', JStr ''t1'')])] False]
      \<lparr>global_map = [], desk_store = [], suppress_on = False, pushTimer = None,
       lower_queued = 0, pushes_started = 0, posted = []\<rparr>)) = 1
   \<and> posted (run_due 750 (run_writes
      [PageWrite 0 ''etg-trips-global'' [(''t1'', JObj [(''id'', JStr ''t1'')])] True,
       PageWrite 100 ''etg-trips-global'' [(''t1'', JObj [(''id'', JStr ''t1'')])] True,
       PageWrite 350 ''etg-trips-global'' [(''t1'', JObj [(''id'', JStr ''t1'')])] False]
      \<lparr>global_map = [], desk_store = [], suppress_on = False, pushTimer = None,
       lower_queued = 0, pushes_started = 0, posted = []\<rparr>))
     = [JObj [(''trips'', JArr [JObj [(''id'', JStr ''t1'')]])]]
   \<and> pushes_started (run_due 1400 (run_writes
      [PageWrite 0 ''etg-trips-global'' [(''t1'', JObj [(''id'', JStr ''t1'')])] True,
       PageWrite 500 ''etg-trips-global'' [(''t1'', JObj [(''id'', JStr ''t1'')])] True,
       PageWrite 1000 ''etg-trips-global'' [(''t1'', JObj [(''id'', JStr ''t1'')])] True]
      \<lparr>global_map = [], desk_store = [], suppress_on = False, pushTimer = None,
       lower_queued = 0, pushes_started = 0, posted = []\<rparr>)) = 3
   \<and> pushes_started (run_due 1400 (run_writes
      [PageWrite 0 ''etg-trips-global'' [(''t1'', JObj [(''id'', JStr ''t1'')])] True,
       PageWrite 500 ''etg-trips-global'' [(''t1'', JObj [(''id'', JStr ''t1'')])] False,
       PageWrite 1000 ''etg-trips-global'' [(''t1'', JObj [(''id'', JStr ''t1'')])] False]
      \<lparr>global_map = [], desk_store = [], suppress_on = False, pushTimer = None,
       lower_queued = 0, pushes_started = 0, posted = []\<rparr>)) = 1"
proof -
  let ?g = "[(''t1'', JObj [(''id'', JStr ''t1'')])]"
  let ?burst = "[PageWrite 0 ''etg-trips-global'' ?g True, PageWrite 100 ''etg-trips-global'' ?g True,
                 PageWrite 350 ''etg-trips-global'' ?g False]"
  let ?spaced = "[PageWrite 0 ''etg-trips-global'' ?g True, PageWrite 500 ''etg-trips-global'' ?g True,
                  PageWrite 1000 ''etg-trips-global'' ?g True]"
  let ?task = "[PageWrite 0 ''etg-trips-global'' ?g True, PageWrite 500 ''etg-trips-global'' ?g False,
                PageWrite 1000 ''etg-trips-global'' ?g False]"
  let ?s = "\<lparr>global_map = [], desk_store = [], suppress_on = False, pushTimer = None,
       lower_queued = 0, pushes_started = 0, posted = []\<rparr>"
  have 1: "settled ?s" by (simp add: settled_def)
  have 2: "pushTimer ?s = None" by simp
  have kb: "\<forall>x \<in> set ?burst. mirror_key (w_key x)" by (simp add: mirror_key_def)
  have ks: "\<forall>x \<in> set ?spaced. mirror_key (w_key x)" by (simp add: mirror_key_def)
  have kt: "\<forall>x \<in> set ?task. mirror_key (w_key x)" by (simp add: mirror_key_def)
  have tb: "w_time (last ?burst) + 400 \<le> 750" by simp
  have ts: "w_time (last ?spaced) + 400 \<le> 1400" by simp
  have tt: "w_time (last ?task) + 400 \<le> 1400" by simp
  have qb: "within_quiet (map w_time ?burst)" by simp
  have qs: "beyond_quiet (map w_time ?spaced) \<and> (\<forall>x \<in> set (tl ?spaced). w_loop_ran x)" by simp
  have qt: "\<forall>x \<in> set (tl ?task). \<not> w_loop_ran x" by simp
  have g: "global_map (run_writes ?burst ?s) = ?g" "desk_store (run_writes ?burst ?s) = []"
    by (simp_all add: run_due_def setItem_def schedulePush_def mirror_key_def Let_def)
  have snap: "push_snapshot (run_writes ?burst ?s) = [JObj [(''id'', JStr ''t1'')]]"
    unfolding push_snapshot_def mergedById_def g by code_simp
  note b = debounce_runs [OF 1 2 _ kb tb, THEN conjunct1, THEN mp, OF _ qb]
  note sp = debounce_runs [OF 1 2 _ ks ts, THEN conjunct2, THEN conjunct1, THEN mp, OF _ qs]
  note ta = debounce_runs [OF 1 2 _ kt tt, THEN conjunct2, THEN conjunct2, THEN mp, OF _ qt]
  have b3: "pushes_started (run_due 750 (run_writes ?burst ?s)) = 1"
    using b by simp
  have b4: "posted (run_due 750 (run_writes ?burst ?s))
              = [JObj [(''trips'', JArr [JObj [(''id'', JStr ''t1'')]])]]"
    using b unfolding snap by simp
  have s3: "pushes_started (run_due 1400 (run_writes ?spaced ?s)) = 3"
    using sp by simp
  have t3: "pushes_started (run_due 1400 (run_writes ?task ?s)) = 1"
    using ta by simp
  show ?thesis using b3 b4 s3 t3 by (intro conjI)
qed

text \<open>
  Claim C9 as stated fails in two ways. When the stores hold no record: a page
  initialises \<^verbatim>\<open>etg-trips\<close> with empty buckets, the timer fires 400 ms later,
  \<^verbatim>\<open>pushAllTripsToServer\<close> runs, finds nothing to send and returns before the request; one
  qualifying write, no push to the server. And when writes beyond the quiet period come
  before the event loop has had its turn: a task of the page writes a record, is busy
  for 500 ms and writes again, \<^verbatim>\<open>clearTimeout\<close> cancels the overdue timer, and the
  two writes make one run and one request.
\<close>

theorem debounce_fewer_pushes_counterexample:
  "mirror_key ''etg-trips''
   \<and> pushes_started (run_due 400 (run_writes
        [PageWrite 0 ''etg-trips'' [(''pending'', JArr []), (''completed'', JArr [])] True]
        \<lparr>global_map = [], desk_store = [], suppress_on = False, pushTimer = None,
         lower_queued = 0, pushes_started = 0, posted = []\<rparr>)) = 1
   \<and> posted (run_due 400 (run_writes
        [PageWrite 0 ''etg-trips'' [(''pending'', JArr []), (''completed'', JArr [])] True]
        \<lparr>global_map = [], desk_store = [], suppress_on = False, pushTimer = None,
         lower_queued = 0, pushes_started = 0, posted = []\<rparr>)) = []
   \<and> mirror_key ''etg-trips-global''
   \<and> beyond_quiet [0, 500]
   \<and> pushes_started (run_due 900 (run_writes
        [PageWrite 0 ''etg-trips-global'' [(''t1'', JObj [(''id'', JStr ''t1'')])] True,
         PageWrite 500 ''etg-trips-global'' [(''t1'', JObj [(''id'', JStr ''t1'')])] False]
        \<lparr>global_map = [], desk_store = [], suppress_on = False, pushTimer = None,
         lower_queued = 0, pushes_started = 0, posted = []\<rparr>)) = 1
   \<and> posted (run_due 900 (run_writes
        [PageWrite 0 ''etg-trips-global'' [(''t1'', JObj [(''id'', JStr ''t1'')])] True,
         PageWrite 500 ''etg-trips-global'' [(''t1'', JObj [(''id'', JStr ''t1'')])] False]
        \<lparr>global_map = [], desk_store = [], suppress_on = False, pushTimer = None,
         lower_queued = 0, pushes_started = 0, posted = []\<rparr>))
      = [JObj [(''trips'', JArr [JObj [(''id'', JStr ''t1'')]])]]"
  by code_simp

end
